theory Spec2Isabelle
  imports Main "HOL-Library.Word" "HOL-Library.Signed_Division"
begin

unbundle bit_operations_syntax

section \<open>C values shared by the widgets\<close>

text \<open>
  The firmware targets the ESP32: \<open>int\<close>, \<open>int32_t\<close> and \<open>uint32_t\<close> are 32 bits wide.
  A C \<open>int\<close> is a \<open>32 word\<close> read through \<open>sint\<close>; addition, subtraction and negation
  wrap around as the two's complement hardware does. Pointers to things the widgets never
  look into (fonts, image descriptors, callbacks) are optional addresses, \<open>None\<close> being
  \<open>NULL\<close>. Strings are byte lists; a C string ends at its first zero byte.
\<close>

type_synonym int32 = "32 word"
type_synonym uint32 = "32 word"
type_synonym addr = nat

text \<open>What stops the program instead of returning: the integer-divide-by-zero trap of
  \<open>%\<close>, and a read past the end of an array.\<close>

datatype fault = DivideByZero | OutOfBounds

text \<open>C's \<open>a % b\<close> on \<open>int\<close>: the remainder of the division that truncates towards zero.\<close>

definition c_rem :: "int32 \<Rightarrow> int32 \<Rightarrow> fault + int32" where
  "c_rem a b = (if b = 0 then Inl DivideByZero else Inr (word_of_int (sint a smod sint b)))"

text \<open>\<open>arr[i]\<close> for an array of known extent.\<close>

definition array_get :: "'a list \<Rightarrow> int32 \<Rightarrow> fault + 'a" where
  "array_get arr i =
     (if 0 \<le> sint i \<and> nat (sint i) < length arr then Inr (arr ! nat (sint i))
      else Inl OutOfBounds)"

text \<open>The bytes of a C string: everything before the first zero byte.\<close>

definition c_str :: "string \<Rightarrow> string" where
  "c_str s = takeWhile (\<lambda>c. c \<noteq> CHR 0x00) s"

text \<open>An LVGL object as far as the widgets use it: the user-data slot that holds the
  widget's own state. A \<open>lv_obj_t*\<close> is an optional object.\<close>

record 'd lv_obj_t =
  user_data :: "'d option"

section \<open>widget_common.c\<close>

datatype lv_font_t =
  lv_font_dejavu_16_persian_hebrew | lv_font_montserrat_14 | lv_font_other addr

type_synonym lv_font_ptr = "lv_font_t option"

text \<open>\<open>#define LV_FONT_DEFAULT &lv_font_dejavu_16_persian_hebrew\<close> (lv_conf.h).\<close>

definition LV_FONT_DEFAULT :: lv_font_ptr where
  "LV_FONT_DEFAULT = Some lv_font_dejavu_16_persian_hebrew"

datatype lv_base_dir_t = LV_BASE_DIR_LTR | LV_BASE_DIR_RTL | LV_BASE_DIR_AUTO

record widget_style_t =
  base_dir :: lv_base_dir_t
  title_font :: lv_font_ptr
  content_font :: lv_font_ptr
  button_font :: lv_font_ptr
  padding :: int32
  margin :: int32
  border_radius :: int32
  border_width :: int32
  enable_elastic_scroll :: bool
  enable_momentum_scroll :: bool

definition widget_get_default_style :: widget_style_t where
  "widget_get_default_style =
     \<lparr> base_dir = LV_BASE_DIR_LTR, title_font = None, content_font = None,
       button_font = None, padding = 15, margin = 8, border_radius = 8, border_width = 1,
       enable_elastic_scroll = True, enable_momentum_scroll = False \<rparr>"

text \<open>\<open>widget_font_size_t\<close> is a C enum, so a parameter of that type can carry any
  \<open>int\<close>; the \<open>default:\<close> branch of the switch below is for those.\<close>

type_synonym widget_font_size_t = int32

definition WIDGET_FONT_SIZE_SMALL :: widget_font_size_t where
  "WIDGET_FONT_SIZE_SMALL = 0"

definition WIDGET_FONT_SIZE_NORMAL :: widget_font_size_t where
  "WIDGET_FONT_SIZE_NORMAL = 1"

definition WIDGET_FONT_SIZE_LARGE :: widget_font_size_t where
  "WIDGET_FONT_SIZE_LARGE = 2"

text \<open>\<open>p ? p : LV_FONT_DEFAULT\<close>\<close>

definition font_or_default :: "lv_font_ptr \<Rightarrow> lv_font_ptr" where
  "font_or_default p = (case p of Some f \<Rightarrow> Some f | None \<Rightarrow> LV_FONT_DEFAULT)"

definition widget_get_theme_font ::
  "widget_style_t option \<Rightarrow> lv_font_ptr \<Rightarrow> widget_font_size_t \<Rightarrow> lv_font_ptr" where
  "widget_get_theme_font style font_override font_size =
     (case font_override of
        Some f \<Rightarrow> Some f
      | None \<Rightarrow>
          (case style of
             None \<Rightarrow> LV_FONT_DEFAULT
           | Some st \<Rightarrow>
               if font_size = WIDGET_FONT_SIZE_SMALL then font_or_default (button_font st)
               else if font_size = WIDGET_FONT_SIZE_NORMAL then font_or_default (content_font st)
               else if font_size = WIDGET_FONT_SIZE_LARGE then font_or_default (title_font st)
               else font_or_default (content_font st)))"

section \<open>lv_image_gallery.c\<close>

text \<open>
  Only what the gallery's functions read or write is kept. The calls that style and lay
  out LVGL objects (sizes, padding, flex flow, fonts, the title label, the height of the
  images container) touch no gallery state and are left out, and so is the widget
  configuration they read. LVGL calls whose result the source uses without a check are
  taken to succeed; the results the source does check are inputs (\<open>gallery_env\<close>).
\<close>

record lv_gallery_image_t =
  img_src :: "addr option"
  label_text :: "string option"
  border_color :: uint32

text \<open>The image object with the source it shows, and the counter label with the
  arguments of its format \<open>"%d / %d - %s"\<close>.\<close>

record lv_img_t =
  src :: "addr option"

datatype counter_text = Counter int32 int32 string

record lv_counter_label_t =
  label_shown :: "counter_text option"

record lv_gallery_data_t =
  images :: "lv_gallery_image_t list option"
  image_count :: int32
  current_index :: int32
  img_obj :: "lv_img_t option"
  counter_label :: "lv_counter_label_t option"

type_synonym gallery_obj = "lv_gallery_data_t lv_obj_t"

definition get_gallery_data :: "gallery_obj option \<Rightarrow> lv_gallery_data_t option" where
  "get_gallery_data gallery =
     (case gallery of
        None \<Rightarrow> None
      | Some obj \<Rightarrow> (case user_data obj of None \<Rightarrow> None | Some data \<Rightarrow> Some data))"

text \<open>The functions write through the data pointer; the model hands back the object
  with its data replaced.\<close>

definition store_gallery_data :: "gallery_obj option \<Rightarrow> lv_gallery_data_t \<Rightarrow> gallery_obj option" where
  "store_gallery_data gallery data = map_option (\<lambda>obj. obj\<lparr>user_data := Some data\<rparr>) gallery"

text \<open>The loop of \<open>validate_images_array\<close>: \<open>for (int i = 0; i < image_count; i++)\<close>.\<close>

function validate_images_loop :: "lv_gallery_image_t list \<Rightarrow> int32 \<Rightarrow> int32 \<Rightarrow> fault + bool" where
  "validate_images_loop arr n i =
     (if sint i < sint n then
        (case array_get arr i of
           Inl f \<Rightarrow> Inl f
         | Inr im \<Rightarrow> if img_src im = None then Inr False else validate_images_loop arr n (i + 1))
      else Inr True)"
  by pat_completeness auto
termination
proof (relation "measure (\<lambda>(arr, n, i). nat (sint n - sint i))")
  show "wf (measure (\<lambda>(arr, n, i). nat (sint n - sint i)))"
    by simp
next
  fix arr :: "lv_gallery_image_t list" and n i :: int32 and x2 :: lv_gallery_image_t
  assume lt: "sint i < sint n"
  have "sint n < 2 ^ 31"
    using sint_lt [of n] by simp
  moreover have "- (2 ^ 31) \<le> sint i"
    using sint_ge [of i] by simp
  ultimately have "sint (i + 1) = sint i + 1"
    using lt by (simp add: sint_word_ariths signed_take_bit_int_eq_self)
  then show "((arr, n, i + 1), (arr, n, i)) \<in> measure (\<lambda>(arr, n, i). nat (sint n - sint i))"
    using lt by simp
qed

declare validate_images_loop.simps [simp del]

definition validate_images_array :: "lv_gallery_image_t list option \<Rightarrow> int32 \<Rightarrow> fault + bool" where
  "validate_images_array imgs n =
     (case imgs of
        None \<Rightarrow> Inr False
      | Some arr \<Rightarrow> if sint n \<le> 0 then Inr False else validate_images_loop arr n 0)"

text \<open>\<open>update_gallery_display\<close> is only ever called with a non-\<open>NULL\<close> \<open>data\<close>.\<close>

definition update_gallery_display :: "lv_gallery_data_t \<Rightarrow> fault + lv_gallery_data_t" where
  "update_gallery_display data =
     (case images data of
        None \<Rightarrow> Inr data
      | Some arr \<Rightarrow>
          if sint (current_index data) < 0 \<or> sint (image_count data) \<le> sint (current_index data)
          then Inr data
          else
            (case array_get arr (current_index data) of
               Inl f \<Rightarrow> Inl f
             | Inr current_image \<Rightarrow>
                 Inr (data
                   \<lparr> img_obj :=
                       (case img_obj data of
                          None \<Rightarrow> None
                        | Some im \<Rightarrow>
                            (case img_src current_image of
                               None \<Rightarrow> Some im
                             | Some s \<Rightarrow> Some (im\<lparr>src := Some s\<rparr>))),
                     counter_label :=
                       (case counter_label data of
                          None \<Rightarrow> None
                        | Some lbl \<Rightarrow>
                            Some (lbl\<lparr>label_shown :=
                              Some (Counter (current_index data + 1) (image_count data)
                                (case label_text current_image of None \<Rightarrow> [] | Some t \<Rightarrow> c_str t))\<rparr>)) \<rparr>)))"

text \<open>What LVGL answers to the requests whose result the gallery code checks: \<open>lv_malloc\<close>
  of the data, \<open>lv_obj_create\<close> of the container, and for each navigation button
  \<open>lv_btn_create\<close> and the \<open>lv_label_create\<close> of its label.\<close>

record gallery_env =
  data_alloc_ok :: bool
  container_ok :: bool
  prev_btn_ok :: bool
  prev_label_ok :: bool
  next_btn_ok :: bool
  next_label_ok :: bool

text \<open>A navigation button: the text of its label, \<open>None\<close> when the label could not be
  created, and the handler registered for \<open>LV_EVENT_CLICKED\<close>.\<close>

record lv_nav_button_t =
  nav_label :: "string option"
  nav_clicked_cb :: addr

text \<open>\<open>create_nav_button\<close>: \<open>NULL\<close> for a missing parent, text or callback and when
  \<open>lv_btn_create\<close> fails; a label that could not be created is skipped (\<open>if (label)\<close>)
  and the button is returned all the same.\<close>

definition create_nav_button ::
  "addr option \<Rightarrow> string option \<Rightarrow> addr option \<Rightarrow> bool \<Rightarrow> bool \<Rightarrow> lv_nav_button_t option" where
  "create_nav_button parent btn_text callback btn_ok label_ok =
     (case parent of
        None \<Rightarrow> None
      | Some p \<Rightarrow>
          (case btn_text of
             None \<Rightarrow> None
           | Some t \<Rightarrow>
               (case callback of
                  None \<Rightarrow> None
                | Some cb \<Rightarrow>
                    if \<not> btn_ok then None
                    else Some \<lparr> nav_label = (if label_ok then Some (c_str t) else None),
                                nav_clicked_cb = cb \<rparr>)))"

record lv_gallery_config_t =
  prev_text :: "string option"
  next_text :: "string option"

definition lv_image_gallery_get_default_config :: lv_gallery_config_t where
  "lv_image_gallery_get_default_config = \<lparr> prev_text = Some ''< Previous'', next_text = Some ''Next >'' \<rparr>"

text \<open>The addresses of the two button handlers and of the buttons container.\<close>

definition prev_button_event_cb_addr :: addr where
  "prev_button_event_cb_addr = 1"

definition next_button_event_cb_addr :: addr where
  "next_button_event_cb_addr = 2"

definition buttons_container_addr :: addr where
  "buttons_container_addr = 3"

text \<open>
  What \<open>lv_image_gallery_create\<close> leaves behind: the pointer it returns, and the
  container it has created under the parent, if any. Of that container the model keeps
  what its user data points to (the gallery data, or memory that \<open>cleanup_gallery_data\<close>
  has freed), whether \<open>gallery_delete_event_cb\<close> is registered on it, and the navigation
  buttons created under it. The source has no call that deletes an LVGL object.
\<close>

datatype gallery_data_ptr = Live lv_gallery_data_t | Freed

record lv_gallery_container_t =
  container_user_data :: "gallery_data_ptr option"
  delete_cb_registered :: bool
  nav_buttons :: "lv_nav_button_t list"

record gallery_created =
  returned :: "gallery_obj option"
  under_parent :: "lv_gallery_container_t option"

definition nothing_created :: gallery_created where
  "nothing_created = \<lparr> returned = None, under_parent = None \<rparr>"

definition lv_image_gallery_create ::
  "gallery_env \<Rightarrow> addr option \<Rightarrow> lv_gallery_image_t list option \<Rightarrow> int32 \<Rightarrow> string option \<Rightarrow>
     lv_gallery_config_t option \<Rightarrow> fault + gallery_created" where
  "lv_image_gallery_create env parent imgs n title config =
     (if parent = None then Inr nothing_created
      else
        (case validate_images_array imgs n of
           Inl f \<Rightarrow> Inl f
         | Inr valid \<Rightarrow>
             if \<not> valid then Inr nothing_created
             else
               let cfg = (case config of Some c \<Rightarrow> c | None \<Rightarrow> lv_image_gallery_get_default_config) in
               if \<not> data_alloc_ok env then Inr nothing_created
               else
                 let data = \<lparr> images = imgs, image_count = n, current_index = 0,
                              img_obj = None, counter_label = None \<rparr> in
                 if \<not> container_ok env then Inr nothing_created
                 else
                   let data = data\<lparr>counter_label := Some \<lparr> label_shown = None \<rparr>\<rparr>;
                       data = data\<lparr>img_obj := Some \<lparr> src = None \<rparr>\<rparr>;
                       prev_text = (case prev_text cfg of Some t \<Rightarrow> Some t | None \<Rightarrow> Some ''< Previous'');
                       next_text = (case next_text cfg of Some t \<Rightarrow> Some t | None \<Rightarrow> Some ''Next >'');
                       prev_btn = create_nav_button (Some buttons_container_addr) prev_text
                                    (Some prev_button_event_cb_addr) (prev_btn_ok env) (prev_label_ok env);
                       next_btn = create_nav_button (Some buttons_container_addr) next_text
                                    (Some next_button_event_cb_addr) (next_btn_ok env) (next_label_ok env);
                       buttons = (case prev_btn of None \<Rightarrow> [] | Some b \<Rightarrow> [b])
                                 @ (case next_btn of None \<Rightarrow> [] | Some b \<Rightarrow> [b])
                   in
                     if prev_btn = None \<or> next_btn = None then
                       Inr \<lparr> returned = None,
                             under_parent = Some \<lparr> container_user_data = Some Freed,
                                                   delete_cb_registered = True,
                                                   nav_buttons = buttons \<rparr> \<rparr>
                     else
                       (case update_gallery_display data of
                          Inl f \<Rightarrow> Inl f
                        | Inr data' \<Rightarrow>
                            Inr \<lparr> returned = Some \<lparr> user_data = Some data' \<rparr>,
                                  under_parent = Some \<lparr> container_user_data = Some (Live data'),
                                                        delete_cb_registered = True,
                                                        nav_buttons = buttons \<rparr> \<rparr>)))"

definition lv_image_gallery_set_index :: "gallery_obj option \<Rightarrow> int32 \<Rightarrow> fault + bool \<times> gallery_obj option" where
  "lv_image_gallery_set_index gallery index =
     (case get_gallery_data gallery of
        None \<Rightarrow> Inr (False, gallery)
      | Some data \<Rightarrow>
          if sint index < 0 \<or> sint (image_count data) \<le> sint index then Inr (False, gallery)
          else
            (case update_gallery_display (data\<lparr>current_index := index\<rparr>) of
               Inl f \<Rightarrow> Inl f
             | Inr data' \<Rightarrow> Inr (True, store_gallery_data gallery data')))"

definition lv_image_gallery_get_index :: "gallery_obj option \<Rightarrow> int32" where
  "lv_image_gallery_get_index gallery =
     (case get_gallery_data gallery of None \<Rightarrow> - 1 | Some data \<Rightarrow> current_index data)"

definition lv_image_gallery_next :: "gallery_obj option \<Rightarrow> fault + gallery_obj option" where
  "lv_image_gallery_next gallery =
     (case get_gallery_data gallery of
        None \<Rightarrow> Inr gallery
      | Some data \<Rightarrow>
          (case c_rem (current_index data + 1) (image_count data) of
             Inl f \<Rightarrow> Inl f
           | Inr r \<Rightarrow>
               (case update_gallery_display (data\<lparr>current_index := r\<rparr>) of
                  Inl f \<Rightarrow> Inl f
                | Inr data' \<Rightarrow> Inr (store_gallery_data gallery data'))))"

definition lv_image_gallery_prev :: "gallery_obj option \<Rightarrow> fault + gallery_obj option" where
  "lv_image_gallery_prev gallery =
     (case get_gallery_data gallery of
        None \<Rightarrow> Inr gallery
      | Some data \<Rightarrow>
          (case c_rem (current_index data - 1 + image_count data) (image_count data) of
             Inl f \<Rightarrow> Inl f
           | Inr r \<Rightarrow>
               (case update_gallery_display (data\<lparr>current_index := r\<rparr>) of
                  Inl f \<Rightarrow> Inl f
                | Inr data' \<Rightarrow> Inr (store_gallery_data gallery data'))))"

text \<open>The click handlers of the two buttons do what \<open>lv_image_gallery_prev\<close> and
  \<open>lv_image_gallery_next\<close> do, on the gallery passed as the event's user data.\<close>

definition prev_button_event_cb :: "gallery_obj option \<Rightarrow> fault + gallery_obj option" where
  "prev_button_event_cb gallery =
     (case get_gallery_data gallery of
        None \<Rightarrow> Inr gallery
      | Some data \<Rightarrow>
          (case c_rem (current_index data - 1 + image_count data) (image_count data) of
             Inl f \<Rightarrow> Inl f
           | Inr r \<Rightarrow>
               (case update_gallery_display (data\<lparr>current_index := r\<rparr>) of
                  Inl f \<Rightarrow> Inl f
                | Inr data' \<Rightarrow> Inr (store_gallery_data gallery data'))))"

definition next_button_event_cb :: "gallery_obj option \<Rightarrow> fault + gallery_obj option" where
  "next_button_event_cb gallery =
     (case get_gallery_data gallery of
        None \<Rightarrow> Inr gallery
      | Some data \<Rightarrow>
          (case c_rem (current_index data + 1) (image_count data) of
             Inl f \<Rightarrow> Inl f
           | Inr r \<Rightarrow>
               (case update_gallery_display (data\<lparr>current_index := r\<rparr>) of
                  Inl f \<Rightarrow> Inl f
                | Inr data' \<Rightarrow> Inr (store_gallery_data gallery data'))))"

subsection \<open>Arrays on the target\<close>

text \<open>
  On the ESP32 a pointer is 4 bytes, so a \<open>lv_gallery_image_t\<close> (two pointers and a
  \<open>uint32_t\<close>) is 12 bytes, and an array the firmware holds lies within the 32-bit
  address space.
\<close>

definition sizeof_lv_gallery_image_t :: nat where
  "sizeof_lv_gallery_image_t = 12"

definition array_addressable :: "lv_gallery_image_t list \<Rightarrow> bool" where
  "array_addressable arr = (sizeof_lv_gallery_image_t * length arr < 2 ^ 32)"

subsection \<open>Gallery invariant and concrete galleries\<close>

text \<open>
  The state of a gallery between calls: the images array is present and holds at least
  \<open>image_count\<close> entries, and \<open>0 \<le> current_index < image_count\<close>.
\<close>

definition gallery_inv :: "gallery_obj option \<Rightarrow> bool" where
  "gallery_inv gallery =
     (case get_gallery_data gallery of
        None \<Rightarrow> False
      | Some data \<Rightarrow>
          (case images data of
             None \<Rightarrow> False
           | Some arr \<Rightarrow>
               sint (image_count data) \<le> int (length arr)
               \<and> 0 \<le> sint (current_index data)
               \<and> sint (current_index data) < sint (image_count data)))"

text \<open>A three-image gallery as gallery_tab.cpp builds it, showing image \<open>i\<close>.\<close>

definition demo_images :: "lv_gallery_image_t list" where
  "demo_images =
     [\<lparr> img_src = Some 101, label_text = Some ''image 1'', border_color = 0x2196F3 \<rparr>,
      \<lparr> img_src = Some 102, label_text = Some ''image 2'', border_color = 0x4CAF50 \<rparr>,
      \<lparr> img_src = Some 103, label_text = Some ''image 3'', border_color = 0xFF5722 \<rparr>]"

definition demo_data :: "int32 \<Rightarrow> lv_gallery_data_t" where
  "demo_data i =
     \<lparr> images = Some demo_images, image_count = 3, current_index = i,
       img_obj = Some \<lparr> src = img_src (demo_images ! nat (sint i)) \<rparr>,
       counter_label = Some \<lparr> label_shown =
         Some (Counter (i + 1) 3
           (case label_text (demo_images ! nat (sint i)) of None \<Rightarrow> [] | Some t \<Rightarrow> c_str t)) \<rparr> \<rparr>"

definition demo_gallery :: "int32 \<Rightarrow> gallery_obj" where
  "demo_gallery i = \<lparr> user_data = Some (demo_data i) \<rparr>"

definition all_ok :: gallery_env where
  "all_ok = \<lparr> data_alloc_ok = True, container_ok = True, prev_btn_ok = True,
              prev_label_ok = True, next_btn_ok = True, next_label_ok = True \<rparr>"

text \<open>The container that the creation of the demo gallery puts under the parent, given
  what its user data points to and its buttons.\<close>

definition demo_prev_button :: lv_nav_button_t where
  "demo_prev_button = \<lparr> nav_label = Some ''< Previous'', nav_clicked_cb = prev_button_event_cb_addr \<rparr>"

definition demo_next_button :: lv_nav_button_t where
  "demo_next_button = \<lparr> nav_label = Some ''Next >'', nav_clicked_cb = next_button_event_cb_addr \<rparr>"

definition demo_container :: "gallery_data_ptr \<Rightarrow> lv_nav_button_t list \<Rightarrow> lv_gallery_container_t" where
  "demo_container ptr buttons =
     \<lparr> container_user_data = Some ptr, delete_cb_registered = True, nav_buttons = buttons \<rparr>"

section \<open>lv_pull_refresh.c\<close>

text \<open>
  The widget state, the indicator label and icon it drives, and what the widget does to
  the outside: the callbacks it invokes and the scroll it requests, recorded in the order
  they happen. Callbacks are the application's code; they are taken not to call back into
  the widget before they return (the application's refresh callback starts a timer and
  returns). The scroll offset and the tick count an event handler reads come with the
  event. Styling calls are left out, and with them the \<open>style\<close> of the configuration and
  the \<open>user_data\<close> handed to callbacks.
\<close>

datatype lv_pull_state_t =
  PULL_STATE_IDLE | PULL_STATE_PULLING | PULL_STATE_READY | PULL_STATE_REFRESHING

definition PULL_DEFAULT_THRESHOLD :: int32 where
  "PULL_DEFAULT_THRESHOLD = 25"

definition PULL_DEFAULT_INDICATOR_SIZE :: int32 where
  "PULL_DEFAULT_INDICATOR_SIZE = 24"

definition PULL_REFRESH_COOLDOWN :: uint32 where
  "PULL_REFRESH_COOLDOWN = 1000"

record lv_pull_refresh_config_t =
  pull_text :: "string option"
  release_text :: "string option"
  refreshing_text :: "string option"
  pull_threshold :: int32
  indicator_size :: int32
  show_indicator :: bool
  refresh_cb :: "addr option"
  state_cb :: "addr option"

definition lv_pull_refresh_get_default_config :: lv_pull_refresh_config_t where
  "lv_pull_refresh_get_default_config =
     \<lparr> pull_text = Some ''Pull to refresh'', release_text = Some ''Release to refresh'',
       refreshing_text = Some ''Refreshing...'', pull_threshold = PULL_DEFAULT_THRESHOLD,
       indicator_size = PULL_DEFAULT_INDICATOR_SIZE, show_indicator = True,
       refresh_cb = None, state_cb = None \<rparr>"

datatype widget_color_role_t = WIDGET_COLOR_PRIMARY | WIDGET_COLOR_SECONDARY

datatype lv_symbol = LV_SYMBOL_REFRESH | LV_SYMBOL_DOWN

text \<open>The indicator label and the indicator icon: what they show, in the theme colour of
  which role, and whether \<open>LV_OBJ_FLAG_HIDDEN\<close> is set.\<close>

record lv_indicator_label_t =
  shown_text :: string
  text_color :: "widget_color_role_t option"
  hidden :: bool

record lv_indicator_icon_t =
  shown_symbol :: lv_symbol
  icon_color :: "widget_color_role_t option"
  icon_hidden :: bool

record lv_pull_refresh_data_t =
  config :: lv_pull_refresh_config_t
  indicator_label :: "lv_indicator_label_t option"
  indicator_icon :: "lv_indicator_icon_t option"
  state :: lv_pull_state_t
  current_pull_distance :: int32
  refresh_triggered :: bool
  last_refresh_time :: uint32
  enabled :: bool

type_synonym pull_obj = "lv_pull_refresh_data_t lv_obj_t"

text \<open>\<open>StateCb d t\<close>: \<open>state_cb(container, d, t, user_data)\<close>; \<open>RefreshCb\<close>:
  \<open>refresh_cb(container, user_data)\<close>; \<open>ScrollToY y\<close>: \<open>lv_obj_scroll_to_y(container, y, LV_ANIM_ON)\<close>.\<close>

datatype pull_effect = StateCb int32 bool | RefreshCb | ScrollToY int32

definition get_pull_refresh_data :: "pull_obj option \<Rightarrow> lv_pull_refresh_data_t option" where
  "get_pull_refresh_data container =
     (case container of
        None \<Rightarrow> None
      | Some obj \<Rightarrow> (case user_data obj of None \<Rightarrow> None | Some data \<Rightarrow> Some data))"

definition store_pull_refresh_data :: "pull_obj option \<Rightarrow> lv_pull_refresh_data_t \<Rightarrow> pull_obj option" where
  "store_pull_refresh_data container data = map_option (\<lambda>obj. obj\<lparr>user_data := Some data\<rparr>) container"

text \<open>The \<open>switch\<close> of \<open>update_indicator_display\<close>: the text, the colour role and whether
  the indicator shows. In \<open>PULL_STATE_IDLE\<close> the colour is not assigned and not used.\<close>

definition indicator_for ::
  "lv_pull_refresh_data_t \<Rightarrow> string option \<times> widget_color_role_t option \<times> bool" where
  "indicator_for data =
     (case state data of
        PULL_STATE_IDLE \<Rightarrow> (None, None, False)
      | PULL_STATE_PULLING \<Rightarrow> (pull_text (config data), Some WIDGET_COLOR_PRIMARY, True)
      | PULL_STATE_READY \<Rightarrow> (release_text (config data), Some WIDGET_COLOR_SECONDARY, True)
      | PULL_STATE_REFRESHING \<Rightarrow> (refreshing_text (config data), Some WIDGET_COLOR_PRIMARY, True))"

definition update_indicator_display :: "lv_pull_refresh_data_t \<Rightarrow> lv_pull_refresh_data_t" where
  "update_indicator_display data =
     (if \<not> show_indicator (config data) then data
      else
        (case indicator_for data of
           (txt, color, show) \<Rightarrow>
             data
               \<lparr> indicator_label :=
                   (case indicator_label data of
                      None \<Rightarrow> None
                    | Some lbl \<Rightarrow>
                        (case txt of
                           Some t \<Rightarrow>
                             if show then
                               Some (lbl\<lparr> shown_text := c_str t,
                                          text_color :=
                                            (if state data = PULL_STATE_READY
                                             then Some WIDGET_COLOR_SECONDARY else color),
                                          hidden := False \<rparr>)
                             else Some (lbl\<lparr> hidden := True \<rparr>)
                         | None \<Rightarrow> Some (lbl\<lparr> hidden := True \<rparr>))),
                 indicator_icon :=
                   (case indicator_icon data of
                      None \<Rightarrow> None
                    | Some icon \<Rightarrow>
                        if show then
                          Some (icon\<lparr> icon_color := color, icon_hidden := False,
                                      shown_symbol :=
                                        (if state data = PULL_STATE_REFRESHING
                                         then LV_SYMBOL_REFRESH else LV_SYMBOL_DOWN) \<rparr>)
                        else Some (icon\<lparr> icon_hidden := True \<rparr>)) \<rparr>))"

text \<open>\<open>set_pull_state\<close> is only called with a non-\<open>NULL\<close> \<open>data\<close>.\<close>

definition set_pull_state ::
  "lv_pull_refresh_data_t \<Rightarrow> lv_pull_state_t \<Rightarrow> lv_pull_refresh_data_t \<times> pull_effect list" where
  "set_pull_state data new_state =
     (if state data = new_state then (data, [])
      else
        let data' = update_indicator_display (data\<lparr>state := new_state\<rparr>) in
        (data',
         if state_cb (config data') \<noteq> None
         then [StateCb (current_pull_distance data')
                 (new_state = PULL_STATE_READY \<or> new_state = PULL_STATE_REFRESHING)]
         else []))"

datatype lv_event_code_t = LV_EVENT_SCROLL | LV_EVENT_SCROLL_END | LV_EVENT_OTHER

text \<open>\<open>scroll_event_cb\<close>, with the event code, the value of \<open>lv_obj_get_scroll_y\<close> and the
  value of \<open>lv_tick_get\<close> at the event. The tick difference and its comparison with the
  cooldown are unsigned.\<close>

definition scroll_event_cb ::
  "lv_event_code_t \<Rightarrow> int32 \<Rightarrow> uint32 \<Rightarrow> pull_obj option \<Rightarrow> pull_obj option \<times> pull_effect list" where
  "scroll_event_cb code scroll_y current_time container =
     (case get_pull_refresh_data container of
        None \<Rightarrow> (container, [])
      | Some data \<Rightarrow>
          if \<not> enabled data then (container, [])
          else if code = LV_EVENT_SCROLL then
            let data = data\<lparr>current_pull_distance := - scroll_y\<rparr> in
            if state data = PULL_STATE_REFRESHING then (store_pull_refresh_data container data, [])
            else
              (case
                 (if sint (current_pull_distance data) \<le> 0 then set_pull_state data PULL_STATE_IDLE
                  else if sint (current_pull_distance data) < sint (pull_threshold (config data))
                  then set_pull_state data PULL_STATE_PULLING
                  else set_pull_state data PULL_STATE_READY)
               of (data', fx) \<Rightarrow> (store_pull_refresh_data container data', fx))
          else if code = LV_EVENT_SCROLL_END then
            if state data = PULL_STATE_READY \<and> \<not> refresh_triggered data
               \<and> PULL_REFRESH_COOLDOWN \<le> current_time - last_refresh_time data
            then
              (case set_pull_state
                      (data\<lparr>refresh_triggered := True, last_refresh_time := current_time\<rparr>)
                      PULL_STATE_REFRESHING
               of (data', fx) \<Rightarrow>
                 (store_pull_refresh_data container data',
                  fx @ (if refresh_cb (config data') \<noteq> None then [RefreshCb] else [])))
            else if state data \<noteq> PULL_STATE_REFRESHING then
              (case set_pull_state data PULL_STATE_IDLE
               of (data', fx) \<Rightarrow> (store_pull_refresh_data container data', ScrollToY 0 # fx))
            else (container, [])
          else (container, []))"

text \<open>What LVGL answers to the two requests whose result \<open>lv_pull_refresh_create\<close> checks.\<close>

record pull_env =
  pull_data_alloc_ok :: bool
  pull_container_ok :: bool

definition lv_pull_refresh_create ::
  "pull_env \<Rightarrow> addr option \<Rightarrow> lv_pull_refresh_config_t option \<Rightarrow> pull_obj option" where
  "lv_pull_refresh_create env parent cfg =
     (if parent = None then None
      else
        (case cfg of
           None \<Rightarrow> None
         | Some c \<Rightarrow>
             if refresh_cb c = None then None
             else if \<not> pull_data_alloc_ok env then None
             else
               let data = \<lparr> config = c, indicator_label = None, indicator_icon = None,
                            state = PULL_STATE_IDLE, current_pull_distance = 0,
                            refresh_triggered = False, last_refresh_time = 0, enabled = True \<rparr> in
               if \<not> pull_container_ok env then None
               else
                 let data =
                   (if show_indicator (config data) then
                      data\<lparr> indicator_label :=
                               Some \<lparr> shown_text = ''Text'', text_color = None, hidden = True \<rparr>,
                             indicator_icon :=
                               Some \<lparr> shown_symbol = LV_SYMBOL_REFRESH,
                                      icon_color = Some WIDGET_COLOR_PRIMARY, icon_hidden = True \<rparr> \<rparr>
                    else data)
                 in Some \<lparr> user_data = Some data \<rparr>))"

definition lv_pull_refresh_complete :: "pull_obj option \<Rightarrow> pull_obj option \<times> pull_effect list" where
  "lv_pull_refresh_complete container =
     (case get_pull_refresh_data container of
        None \<Rightarrow> (container, [])
      | Some data \<Rightarrow>
          (case set_pull_state (data\<lparr>refresh_triggered := False, current_pull_distance := 0\<rparr>)
                  PULL_STATE_IDLE
           of (data', fx) \<Rightarrow> (store_pull_refresh_data container data', fx @ [ScrollToY 0])))"

definition lv_pull_refresh_is_refreshing :: "pull_obj option \<Rightarrow> bool" where
  "lv_pull_refresh_is_refreshing container =
     (case get_pull_refresh_data container of
        None \<Rightarrow> False
      | Some data \<Rightarrow> state data = PULL_STATE_REFRESHING)"

definition lv_pull_refresh_set_refreshing ::
  "pull_obj option \<Rightarrow> bool \<Rightarrow> pull_obj option \<times> pull_effect list" where
  "lv_pull_refresh_set_refreshing container refreshing =
     (case get_pull_refresh_data container of
        None \<Rightarrow> (container, [])
      | Some data \<Rightarrow>
          if refreshing then
            (case set_pull_state (data\<lparr>refresh_triggered := True\<rparr>) PULL_STATE_REFRESHING
             of (data', fx) \<Rightarrow> (store_pull_refresh_data container data', fx))
          else lv_pull_refresh_complete container)"

definition lv_pull_refresh_get_pull_distance :: "pull_obj option \<Rightarrow> int32" where
  "lv_pull_refresh_get_pull_distance container =
     (case get_pull_refresh_data container of
        None \<Rightarrow> 0
      | Some data \<Rightarrow> current_pull_distance data)"

definition lv_pull_refresh_set_enabled ::
  "pull_obj option \<Rightarrow> bool \<Rightarrow> pull_obj option \<times> pull_effect list" where
  "lv_pull_refresh_set_enabled container en =
     (case get_pull_refresh_data container of
        None \<Rightarrow> (container, [])
      | Some data \<Rightarrow>
          let data = data\<lparr>enabled := en\<rparr> in
          if \<not> en \<and> state data \<noteq> PULL_STATE_IDLE
          then lv_pull_refresh_complete (store_pull_refresh_data container data)
          else (store_pull_refresh_data container data, []))"

subsection \<open>Runs of the pull-to-refresh widget\<close>

text \<open>
  What can happen to a container after its creation: a scroll event with the scroll
  offset read, a scroll-end event with the tick read, or a call of one of the public
  functions. A run applies a list of these in order and collects what the widget did.
\<close>

datatype pull_step =
  Scroll int32
  | ScrollEnd uint32
  | Complete
  | IsRefreshing
  | SetRefreshing bool
  | GetPullDistance
  | SetEnabled bool

fun pull_step_exec :: "pull_step \<Rightarrow> pull_obj option \<Rightarrow> pull_obj option \<times> pull_effect list" where
  "pull_step_exec (Scroll y) c = scroll_event_cb LV_EVENT_SCROLL y 0 c"
| "pull_step_exec (ScrollEnd t) c = scroll_event_cb LV_EVENT_SCROLL_END 0 t c"
| "pull_step_exec Complete c = lv_pull_refresh_complete c"
| "pull_step_exec IsRefreshing c = (c, [])"
| "pull_step_exec (SetRefreshing b) c = lv_pull_refresh_set_refreshing c b"
| "pull_step_exec GetPullDistance c = (c, [])"
| "pull_step_exec (SetEnabled b) c = lv_pull_refresh_set_enabled c b"

fun pull_run :: "pull_step list \<Rightarrow> pull_obj option \<Rightarrow> pull_obj option \<times> pull_effect list" where
  "pull_run [] c = (c, [])"
| "pull_run (s # ss) c =
     (case pull_step_exec s c of
        (c', fx) \<Rightarrow> (case pull_run ss c' of (c'', fx') \<Rightarrow> (c'', fx @ fx')))"

fun is_scroll_event :: "pull_step \<Rightarrow> bool" where
  "is_scroll_event (Scroll y) = True"
| "is_scroll_event (ScrollEnd t) = True"
| "is_scroll_event s = False"

text \<open>The container of pull_refresh_tab.cpp: the default configuration with both
  callbacks set.\<close>

definition demo_pull_config :: lv_pull_refresh_config_t where
  "demo_pull_config = lv_pull_refresh_get_default_config\<lparr> refresh_cb := Some 10, state_cb := Some 11 \<rparr>"

definition pull_all_ok :: pull_env where
  "pull_all_ok = \<lparr> pull_data_alloc_ok = True, pull_container_ok = True \<rparr>"

definition demo_pull_data :: lv_pull_refresh_data_t where
  "demo_pull_data =
     \<lparr> config = demo_pull_config,
       indicator_label = Some \<lparr> shown_text = ''Text'', text_color = None, hidden = True \<rparr>,
       indicator_icon = Some \<lparr> shown_symbol = LV_SYMBOL_REFRESH,
                               icon_color = Some WIDGET_COLOR_PRIMARY, icon_hidden = True \<rparr>,
       state = PULL_STATE_IDLE, current_pull_distance = 0, refresh_triggered = False,
       last_refresh_time = 0, enabled = True \<rparr>"

definition demo_pull_container :: pull_obj where
  "demo_pull_container = \<lparr> user_data = Some demo_pull_data \<rparr>"

text \<open>The same container configured with \<open>pull_threshold = 0\<close>, and the demo container
  while it refreshes after a pull of 30 pixels released at tick 5000.\<close>

definition zero_threshold_container :: pull_obj where
  "zero_threshold_container =
     \<lparr> user_data = Some (demo_pull_data\<lparr> config := demo_pull_config\<lparr> pull_threshold := 0 \<rparr> \<rparr>) \<rparr>"

definition refreshing_container :: pull_obj where
  "refreshing_container =
     \<lparr> user_data = Some (demo_pull_data
         \<lparr> indicator_label := Some \<lparr> shown_text = ''Refreshing...'',
                                     text_color = Some WIDGET_COLOR_PRIMARY, hidden = False \<rparr>,
           indicator_icon := Some \<lparr> shown_symbol = LV_SYMBOL_REFRESH,
                                    icon_color = Some WIDGET_COLOR_PRIMARY, icon_hidden = False \<rparr>,
           state := PULL_STATE_REFRESHING, current_pull_distance := 30,
           refresh_triggered := True, last_refresh_time := 5000 \<rparr>) \<rparr>"

section \<open>lv_expandable_card.c\<close>

text \<open>
  The card's state, the content container, the two labels it writes, and the callbacks it
  invokes. Whether \<open>lv_malloc\<close> succeeds is an input of every function that can reach
  \<open>create_truncated_text\<close>. Styling calls, the shared style objects, the expand button
  itself (only ever styled) and the scroll position of the content container (reset on
  collapse, never read) are left out.
\<close>

definition CARD_DEFAULT_TRUNCATE_LENGTH :: int32 where
  "CARD_DEFAULT_TRUNCATE_LENGTH = 60"

record lv_card_data_t =
  title :: "string option"
  content :: "string option"

record lv_card_config_t =
  expand_text :: "string option"
  collapse_text :: "string option"
  truncate_length :: int32
  truncate_suffix :: "string option"
  max_content_height :: int32
  on_expand :: "addr option"
  on_collapse :: "addr option"

definition lv_expandable_card_get_default_config :: lv_card_config_t where
  "lv_expandable_card_get_default_config =
     \<lparr> expand_text = Some ''Show More'', collapse_text = Some ''Show Less'',
       truncate_length = CARD_DEFAULT_TRUNCATE_LENGTH, truncate_suffix = Some ''...'',
       max_content_height = 0, on_expand = None, on_collapse = None \<rparr>"

text \<open>\<open>(*p & 0xC0) != 0x80\<close>: the byte is not a UTF-8 continuation byte.\<close>

definition utf8_lead_byte :: "char \<Rightarrow> bool" where
  "utf8_lead_byte c = ((of_char c :: 8 word) AND 0xC0 \<noteq> 0x80)"

text \<open>The loop of \<open>utf8_char_count\<close>, from the byte at \<open>p\<close> with the count so far.\<close>

fun utf8_char_count_loop :: "string \<Rightarrow> int32 \<Rightarrow> int32" where
  "utf8_char_count_loop [] char_count = char_count"
| "utf8_char_count_loop (c # p) char_count =
     (if c = CHR 0x00 then char_count
      else utf8_char_count_loop p (if utf8_lead_byte c then char_count + 1 else char_count))"

definition utf8_char_count :: "string option \<Rightarrow> int32" where
  "utf8_char_count txt = (case txt of None \<Rightarrow> 0 | Some p \<Rightarrow> utf8_char_count_loop p 0)"

text \<open>The loop of \<open>utf8_char_to_byte_pos\<close>: \<open>while (*p && char_count < char_pos)\<close>.\<close>

fun utf8_byte_pos_loop :: "string \<Rightarrow> int32 \<Rightarrow> int32 \<Rightarrow> int32 \<Rightarrow> int32" where
  "utf8_byte_pos_loop [] char_pos char_count byte_pos = byte_pos"
| "utf8_byte_pos_loop (c # p) char_pos char_count byte_pos =
     (if c = CHR 0x00 \<or> \<not> sint char_count < sint char_pos then byte_pos
      else
        let char_count = (if utf8_lead_byte c then char_count + 1 else char_count);
            byte_pos = (if sint char_count < sint char_pos then byte_pos + 1 else byte_pos)
        in utf8_byte_pos_loop p char_pos char_count byte_pos)"

definition utf8_char_to_byte_pos :: "string option \<Rightarrow> int32 \<Rightarrow> int32" where
  "utf8_char_to_byte_pos txt char_pos =
     (case txt of
        None \<Rightarrow> 0
      | Some p \<Rightarrow> if sint char_pos \<le> 0 then 0 else utf8_byte_pos_loop p char_pos 0 0)"

text \<open>
  \<open>create_truncated_text\<close>. The result is the C string in the allocated buffer, \<open>None\<close>
  when the function returns \<open>NULL\<close>. \<open>strncpy\<close> of \<open>truncate_byte_pos\<close> bytes followed by
  the terminator leaves the first \<open>truncate_byte_pos\<close> bytes of the text; the position is
  counted up from 0 and is not negative.
\<close>

definition create_truncated_text :: "bool \<Rightarrow> string option \<Rightarrow> int32 \<Rightarrow> string option \<Rightarrow> string option" where
  "create_truncated_text alloc_ok full_text max_chars suffix =
     (case full_text of
        None \<Rightarrow> None
      | Some ft \<Rightarrow>
          let full_char_count = utf8_char_count full_text;
              suffix_char_count = (case suffix of None \<Rightarrow> 0 | Some s \<Rightarrow> utf8_char_count suffix)
          in
            if sint full_char_count \<le> sint max_chars then
              (if alloc_ok then Some (c_str ft) else None)
            else
              let truncate_char_count = max_chars - suffix_char_count;
                  truncate_char_count =
                    (if sint truncate_char_count < 0 then 0 else truncate_char_count);
                  truncate_byte_pos = utf8_char_to_byte_pos full_text truncate_char_count
              in
                if \<not> alloc_ok then None
                else
                  Some (take (nat (sint truncate_byte_pos)) (c_str ft)
                        @ (case suffix of None \<Rightarrow> [] | Some s \<Rightarrow> c_str s)))"

text \<open>The content container: its height (\<open>None\<close> for \<open>LV_SIZE_CONTENT\<close>) and whether it
  scrolls. A label: the text it shows.\<close>

record lv_content_container_t =
  container_height :: "int32 option"
  scrollable :: bool

record lv_card_label_t =
  label_content :: string

text \<open>\<open>lv_label_set_text\<close> copies the string; LVGL documents a \<open>NULL\<close> text as a refresh
  of the current one.\<close>

definition lv_label_set_text :: "lv_card_label_t \<Rightarrow> string option \<Rightarrow> lv_card_label_t" where
  "lv_label_set_text lbl txt = (case txt of None \<Rightarrow> lbl | Some s \<Rightarrow> lbl\<lparr>label_content := c_str s\<rparr>)"

record lv_card_widget_data_t =
  card_data :: "lv_card_data_t option"
  content_container :: "lv_content_container_t option"
  content_label :: "lv_card_label_t option"
  expand_label :: "lv_card_label_t option"
  card_config :: lv_card_config_t
  expanded :: bool
  truncated_text :: "string option"

type_synonym card_obj = "lv_card_widget_data_t lv_obj_t"

text \<open>\<open>OnExpand\<close>, \<open>OnCollapse\<close>: the configured callbacks; \<open>ScrollToView\<close>:
  \<open>lv_obj_scroll_to_view(card, LV_ANIM_ON)\<close>.\<close>

datatype card_effect = OnExpand | OnCollapse | ScrollToView

definition get_card_data :: "card_obj option \<Rightarrow> lv_card_widget_data_t option" where
  "get_card_data card_ptr =
     (case card_ptr of
        None \<Rightarrow> None
      | Some obj \<Rightarrow> (case user_data obj of None \<Rightarrow> None | Some data \<Rightarrow> Some data))"

definition store_card_data :: "card_obj option \<Rightarrow> lv_card_widget_data_t \<Rightarrow> card_obj option" where
  "store_card_data card_ptr data = map_option (\<lambda>obj. obj\<lparr>user_data := Some data\<rparr>) card_ptr"

definition validate_card_data :: "lv_card_data_t option \<Rightarrow> bool" where
  "validate_card_data cd =
     (case cd of
        None \<Rightarrow> False
      | Some d \<Rightarrow> if title d = None then False else if content d = None then False else True)"

text \<open>\<open>update_card_display\<close> is only ever called with a non-\<open>NULL\<close> \<open>data\<close>.\<close>

definition update_card_display :: "bool \<Rightarrow> lv_card_widget_data_t \<Rightarrow> lv_card_widget_data_t" where
  "update_card_display alloc_ok data =
     (case card_data data of
        None \<Rightarrow> data
      | Some cd \<Rightarrow>
          let data =
            (case content_label data of
               None \<Rightarrow> data
             | Some lbl \<Rightarrow>
                 if expanded data then
                   data\<lparr> content_container :=
                           map_option
                             (\<lambda>cc. if 0 < sint (max_content_height (card_config data))
                                   then cc\<lparr> container_height := Some (max_content_height (card_config data)),
                                            scrollable := True \<rparr>
                                   else cc\<lparr> container_height := None, scrollable := False \<rparr>)
                             (content_container data),
                         content_label := Some (lv_label_set_text lbl (content cd)) \<rparr>
                 else
                   let cached =
                         (case truncated_text data of
                            None \<Rightarrow>
                              create_truncated_text alloc_ok (content cd)
                                (truncate_length (card_config data)) (truncate_suffix (card_config data))
                          | Some t \<Rightarrow> Some t);
                       shown = (case cached of Some t \<Rightarrow> Some t | None \<Rightarrow> content cd)
                   in
                     data\<lparr> truncated_text := cached,
                           content_container :=
                             map_option (\<lambda>cc. cc\<lparr> container_height := None, scrollable := False \<rparr>)
                               (content_container data),
                           content_label := Some (lv_label_set_text lbl shown) \<rparr>)
          in
            (case expand_label data of
               None \<Rightarrow> data
             | Some lbl \<Rightarrow>
                 data\<lparr> expand_label :=
                   Some (lv_label_set_text lbl
                     (if expanded data then collapse_text (card_config data)
                      else expand_text (card_config data))) \<rparr>))"

definition expand_button_event_cb :: "bool \<Rightarrow> card_obj option \<Rightarrow> card_obj option \<times> card_effect list" where
  "expand_button_event_cb alloc_ok card_ptr =
     (case get_card_data card_ptr of
        None \<Rightarrow> (card_ptr, [])
      | Some data \<Rightarrow>
          let data = update_card_display alloc_ok (data\<lparr>expanded := \<not> expanded data\<rparr>) in
          (store_card_data card_ptr data,
           (if expanded data \<and> on_expand (card_config data) \<noteq> None then [OnExpand]
            else if \<not> expanded data \<and> on_collapse (card_config data) \<noteq> None then [OnCollapse]
            else [])
           @ (if \<not> expanded data then [ScrollToView] else [])))"

text \<open>What LVGL answers to the requests whose result \<open>lv_expandable_card_create\<close> checks,
  and to the allocation of the truncated text.\<close>

record card_env =
  card_alloc_ok :: bool
  card_container_ok :: bool
  text_alloc_ok :: bool

definition lv_expandable_card_create ::
  "card_env \<Rightarrow> addr option \<Rightarrow> lv_card_data_t option \<Rightarrow> lv_card_config_t option \<Rightarrow> card_obj option" where
  "lv_expandable_card_create env parent cd cfg_ptr =
     (if parent = None then None
      else if \<not> validate_card_data cd then None
      else
        let cfg = (case cfg_ptr of Some c \<Rightarrow> c | None \<Rightarrow> lv_expandable_card_get_default_config);
            cfg = (if expand_text cfg = None then cfg\<lparr>expand_text := Some ''Show More''\<rparr> else cfg);
            cfg = (if collapse_text cfg = None then cfg\<lparr>collapse_text := Some ''Show Less''\<rparr> else cfg)
        in
          if \<not> card_alloc_ok env then None
          else
            let data = \<lparr> card_data = cd, content_container = None, content_label = None,
                         expand_label = None, card_config = cfg, expanded = False,
                         truncated_text = None \<rparr> in
            if \<not> card_container_ok env then None
            else
              let data = data\<lparr> content_label := Some \<lparr> label_content = ''Text'' \<rparr> \<rparr>;
                  data = data\<lparr> content_container :=
                                 Some \<lparr> container_height = None, scrollable = True \<rparr> \<rparr>;
                  data = data\<lparr> expand_label := Some \<lparr> label_content = ''Text'' \<rparr> \<rparr>
              in Some \<lparr> user_data = Some (update_card_display (text_alloc_ok env) data) \<rparr>)"

definition lv_expandable_card_set_expanded :: "bool \<Rightarrow> card_obj option \<Rightarrow> bool \<Rightarrow> bool \<times> card_obj option" where
  "lv_expandable_card_set_expanded alloc_ok card_ptr e =
     (case get_card_data card_ptr of
        None \<Rightarrow> (False, card_ptr)
      | Some data \<Rightarrow>
          (True, store_card_data card_ptr (update_card_display alloc_ok (data\<lparr>expanded := e\<rparr>))))"

definition lv_expandable_card_is_expanded :: "card_obj option \<Rightarrow> bool" where
  "lv_expandable_card_is_expanded card_ptr =
     (case get_card_data card_ptr of None \<Rightarrow> False | Some data \<Rightarrow> expanded data)"

definition lv_expandable_card_toggle :: "bool \<Rightarrow> card_obj option \<Rightarrow> card_obj option" where
  "lv_expandable_card_toggle alloc_ok card_ptr =
     (case get_card_data card_ptr of
        None \<Rightarrow> card_ptr
      | Some data \<Rightarrow>
          store_card_data card_ptr (update_card_display alloc_ok (data\<lparr>expanded := \<not> expanded data\<rparr>)))"

subsection \<open>Concrete cards\<close>

text \<open>A card over a short article, created with the default configuration, and the three
  Hebrew letters alef, bet, gimel in UTF-8.\<close>

definition demo_article :: lv_card_data_t where
  "demo_article = \<lparr> title = Some ''Title'', content = Some ''Short text'' \<rparr>"

definition card_all_ok :: card_env where
  "card_all_ok = \<lparr> card_alloc_ok = True, card_container_ok = True, text_alloc_ok = True \<rparr>"

definition demo_card :: "bool \<Rightarrow> card_obj" where
  "demo_card e =
     \<lparr> user_data = Some
         \<lparr> card_data = Some demo_article,
           content_container = Some \<lparr> container_height = None, scrollable = False \<rparr>,
           content_label = Some \<lparr> label_content = ''Short text'' \<rparr>,
           expand_label = Some \<lparr> label_content = (if e then ''Show Less'' else ''Show More'') \<rparr>,
           card_config = lv_expandable_card_get_default_config,
           expanded = e,
           truncated_text = Some ''Short text'' \<rparr> \<rparr>"

definition alef_bet_gimel :: string where
  "alef_bet_gimel = [CHR 0xD7, CHR 0x90, CHR 0xD7, CHR 0x91, CHR 0xD7, CHR 0x92]"

section \<open>Objects without widget data\<close>

text \<open>What the three \<open>get_..._data\<close> helpers reject: a \<open>NULL\<close> object, or an object whose
  user data is \<open>NULL\<close>.\<close>

definition null_widget :: "'d lv_obj_t option \<Rightarrow> bool" where
  "null_widget w = (case w of None \<Rightarrow> True | Some obj \<Rightarrow> user_data obj = None)"

section \<open>Properties of widget_common.c\<close>

text \<open>
  C7. \<open>widget_get_theme_font\<close> returns the override whenever it is not \<open>NULL\<close>. Without an
  override it returns the LVGL default font when the style is \<open>NULL\<close>, and otherwise the
  style's button font for SMALL, content font for NORMAL and title font for LARGE, each
  replaced by the LVGL default font when the field is \<open>NULL\<close>.
\<close>

theorem widget_get_theme_font_spec:
  "widget_get_theme_font style (Some f) font_size = Some f
   \<and> widget_get_theme_font None None font_size = LV_FONT_DEFAULT
   \<and> widget_get_theme_font (Some st) None WIDGET_FONT_SIZE_SMALL =
       (if button_font st = None then LV_FONT_DEFAULT else button_font st)
   \<and> widget_get_theme_font (Some st) None WIDGET_FONT_SIZE_NORMAL =
       (if content_font st = None then LV_FONT_DEFAULT else content_font st)
   \<and> widget_get_theme_font (Some st) None WIDGET_FONT_SIZE_LARGE =
       (if title_font st = None then LV_FONT_DEFAULT else title_font st)"
  by (auto simp: widget_get_theme_font_def font_or_default_def
      WIDGET_FONT_SIZE_SMALL_def WIDGET_FONT_SIZE_NORMAL_def WIDGET_FONT_SIZE_LARGE_def)

section \<open>Properties of lv_image_gallery.c\<close>

subsection \<open>Arithmetic on 32-bit indices, and the helper functions\<close>

lemma sint_succ_no_overflow:
  fixes i n :: int32
  assumes "sint i < sint n"
  shows "sint (i + 1) = sint i + 1"
proof -
  have "sint n < 2 ^ 31"
    using sint_lt [of n] by simp
  moreover have "- (2 ^ 31) \<le> sint i"
    using sint_ge [of i] by simp
  ultimately show ?thesis
    using assms by (simp add: sint_word_ariths signed_take_bit_int_eq_self)
qed

lemma c_rem_nonneg:
  fixes a b :: int32
  assumes "0 \<le> sint a" "0 < sint b"
  shows "\<exists>r. c_rem a b = Inr r \<and> sint r = sint a mod sint b"
proof -
  have nz: "b \<noteq> 0"
    using assms(2) by auto
  have sm: "sint a smod sint b = sint a mod sint b"
    using assms by (simp add: signed_modulo_int_def sgn_if)
  have lo: "0 \<le> sint a mod sint b"
    using assms by simp
  have "sint a mod sint b < sint b"
    using assms by simp
  then have hi: "sint a mod sint b < 2 ^ 31"
    using sint_lt [of b] by simp
  have "sint (word_of_int (sint a mod sint b) :: int32) = sint a mod sint b"
    using lo hi by (simp add: signed_of_int signed_take_bit_int_eq_self)
  then show ?thesis
    using nz sm by (simp add: c_rem_def)
qed

lemma update_gallery_display_ok:
  assumes "images data = Some arr" "sint (image_count data) \<le> int (length arr)"
  shows "\<exists>data'. update_gallery_display data = Inr data'
           \<and> current_index data' = current_index data
           \<and> image_count data' = image_count data
           \<and> images data' = images data"
  using assms by (auto simp: update_gallery_display_def array_get_def)

lemma validate_images_loop_extent:
  "validate_images_loop arr n i = Inr True \<Longrightarrow> 0 \<le> sint i \<Longrightarrow> sint i \<le> int (length arr)
     \<Longrightarrow> sint n \<le> int (length arr)"
proof (induction arr n i rule: validate_images_loop.induct)
  case (1 arr n i)
  show ?case
  proof (cases "sint i < sint n")
    case False
    then show ?thesis using "1.prems" by simp
  next
    case True
    from "1.prems"(1) True obtain im where
      im: "array_get arr i = Inr im" "img_src im \<noteq> None"
      and rec: "validate_images_loop arr n (i + 1) = Inr True"
      by (subst (asm) validate_images_loop.simps) (auto split: sum.splits if_splits)
    have inb: "nat (sint i) < length arr"
      using im(1) by (auto simp: array_get_def split: if_splits)
    have s: "sint (i + 1) = sint i + 1"
      using True by (rule sint_succ_no_overflow)
    show ?thesis
      using "1.IH" [OF True im(1) im(2) rec] s inb "1.prems"(2) by simp
  qed
qed

lemma validate_images_loop_result:
  "0 \<le> sint i \<Longrightarrow> sint n \<le> int (length arr) \<Longrightarrow>
     validate_images_loop arr n i =
       Inr (\<forall>j. nat (sint i) \<le> j \<and> j < nat (sint n) \<longrightarrow> img_src (arr ! j) \<noteq> None)"
proof (induction arr n i rule: validate_images_loop.induct)
  case (1 arr n i)
  show ?case
  proof (cases "sint i < sint n")
    case False
    then show ?thesis
      by (subst validate_images_loop.simps) auto
  next
    case True
    have inb: "nat (sint i) < length arr"
      using True "1.prems" by simp
    then have get: "array_get arr i = Inr (arr ! nat (sint i))"
      using "1.prems"(1) by (simp add: array_get_def)
    have s: "sint (i + 1) = sint i + 1"
      using True by (rule sint_succ_no_overflow)
    show ?thesis
    proof (cases "img_src (arr ! nat (sint i)) = None")
      case src: True
      have "nat (sint i) < nat (sint n)"
        using True "1.prems"(1) by simp
      then have "\<not> (\<forall>j. nat (sint i) \<le> j \<and> j < nat (sint n) \<longrightarrow> img_src (arr ! j) \<noteq> None)"
        using src by blast
      then show ?thesis
        using True get src by (subst validate_images_loop.simps) simp
    next
      case src: False
      have ih: "validate_images_loop arr n (i + 1) =
          Inr (\<forall>j. nat (sint (i + 1)) \<le> j \<and> j < nat (sint n) \<longrightarrow> img_src (arr ! j) \<noteq> None)"
        using "1.IH" [OF True get src] s "1.prems" by simp
      have step: "nat (sint (i + 1)) = Suc (nat (sint i))"
        using s "1.prems"(1) by simp
      have "(\<forall>j. nat (sint i) \<le> j \<and> j < nat (sint n) \<longrightarrow> img_src (arr ! j) \<noteq> None)
          = (\<forall>j. Suc (nat (sint i)) \<le> j \<and> j < nat (sint n) \<longrightarrow> img_src (arr ! j) \<noteq> None)"
        using src by (metis Suc_leI le_neq_implies_less Suc_leD)
      then have eq: "(\<forall>j. nat (sint i) \<le> j \<and> j < nat (sint n) \<longrightarrow> img_src (arr ! j) \<noteq> None)
          = (\<forall>j. nat (sint (i + 1)) \<le> j \<and> j < nat (sint n) \<longrightarrow> img_src (arr ! j) \<noteq> None)"
        by (simp only: step)
      have unfold: "validate_images_loop arr n i = validate_images_loop arr n (i + 1)"
        using True get src by (subst validate_images_loop.simps) auto
      show ?thesis
        by (simp only: unfold ih eq)
    qed
  qed
qed

lemma validate_images_array_result:
  assumes "\<And>arr. imgs = Some arr \<Longrightarrow> sint n \<le> int (length arr)"
  shows "validate_images_array imgs n =
           Inr (\<exists>arr. imgs = Some arr \<and> 0 < sint n \<and> (\<forall>j < nat (sint n). img_src (arr ! j) \<noteq> None))"
proof (cases imgs)
  case None
  then show ?thesis by (simp add: validate_images_array_def)
next
  case (Some arr)
  show ?thesis
  proof (cases "sint n \<le> 0")
    case True
    then show ?thesis using Some by (simp add: validate_images_array_def)
  next
    case False
    have "validate_images_loop arr n 0 =
        Inr (\<forall>j. nat (sint (0 :: int32)) \<le> j \<and> j < nat (sint n) \<longrightarrow> img_src (arr ! j) \<noteq> None)"
      using assms [OF Some] by (intro validate_images_loop_result) auto
    then show ?thesis
      using Some False by (simp add: validate_images_array_def)
  qed
qed

lemma validate_images_array_True:
  assumes "validate_images_array imgs n = Inr True"
  shows "\<exists>arr. imgs = Some arr \<and> 0 < sint n \<and> sint n \<le> int (length arr)
           \<and> (\<forall>j < nat (sint n). img_src (arr ! j) \<noteq> None)"
proof -
  from assms obtain arr where arr: "imgs = Some arr" and pos: "0 < sint n"
    and loop: "validate_images_loop arr n 0 = Inr True"
    by (auto simp: validate_images_array_def split: option.splits if_splits)
  have ext: "sint n \<le> int (length arr)"
    using validate_images_loop_extent [OF loop] by simp
  have "validate_images_array imgs n =
      Inr (\<exists>arr. imgs = Some arr \<and> 0 < sint n \<and> (\<forall>j < nat (sint n). img_src (arr ! j) \<noteq> None))"
    using arr ext by (intro validate_images_array_result) auto
  then show ?thesis
    using assms arr pos ext by auto
qed

lemma create_nav_button_result:
  "create_nav_button (Some p) (Some t) (Some cb) btn_ok label_ok =
     (if btn_ok then Some \<lparr> nav_label = (if label_ok then Some (c_str t) else None),
                              nav_clicked_cb = cb \<rparr>
      else None)"
  by (simp add: create_nav_button_def)

lemma create_early_failure:
  assumes "validate_images_array imgs n = Inr valid"
    and "parent = None \<or> \<not> valid \<or> \<not> data_alloc_ok env \<or> \<not> container_ok env"
  shows "lv_image_gallery_create env parent imgs n gallery_title gallery_config = Inr nothing_created"
  using assms by (auto simp: lv_image_gallery_create_def Let_def)

lemma create_button_failure:
  assumes "validate_images_array imgs n = Inr True" "parent \<noteq> None"
    and "data_alloc_ok env" "container_ok env"
    and "\<not> prev_btn_ok env \<or> \<not> next_btn_ok env"
  shows "\<exists>bs. lv_image_gallery_create env parent imgs n gallery_title gallery_config =
           Inr \<lparr> returned = None,
                 under_parent = Some \<lparr> container_user_data = Some Freed,
                                       delete_cb_registered = True, nav_buttons = bs \<rparr> \<rparr>"
  using assms
  by (auto simp: lv_image_gallery_create_def Let_def create_nav_button_result split: option.splits)

lemma create_all_ok:
  assumes "imgs = Some arr" "0 < sint n" "sint n \<le> int (length arr)" "img_src (arr ! 0) \<noteq> None"
    and "validate_images_array imgs n = Inr True" "parent \<noteq> None"
    and "data_alloc_ok env" "container_ok env" "prev_btn_ok env" "next_btn_ok env"
    and "d = \<lparr> images = Some arr, image_count = n, current_index = 0,
               img_obj = Some \<lparr> src = img_src (arr ! 0) \<rparr>,
               counter_label = Some \<lparr> label_shown = Some (Counter 1 n
                 (case label_text (arr ! 0) of None \<Rightarrow> [] | Some t \<Rightarrow> c_str t)) \<rparr> \<rparr>"
  shows "\<exists>bs. lv_image_gallery_create env parent imgs n gallery_title gallery_config =
           Inr \<lparr> returned = Some \<lparr> user_data = Some d \<rparr>,
                 under_parent = Some \<lparr> container_user_data = Some (Live d),
                                       delete_cb_registered = True, nav_buttons = bs \<rparr> \<rparr>"
proof -
  have len: "0 < length arr"
    using assms(2,3) by auto
  show ?thesis
    using assms len
    by (auto simp: lv_image_gallery_create_def Let_def create_nav_button_result
        update_gallery_display_def array_get_def split: option.splits)
qed

lemma gallery_create_success:
  assumes c: "lv_image_gallery_create env parent imgs n gallery_title gallery_config = Inr r"
    and g: "returned r = Some g"
  shows "\<exists>arr d bs. imgs = Some arr \<and> 0 < sint n \<and> sint n \<le> int (length arr)
           \<and> img_src (arr ! 0) \<noteq> None
           \<and> d = \<lparr> images = Some arr, image_count = n, current_index = 0,
                    img_obj = Some \<lparr> src = img_src (arr ! 0) \<rparr>,
                    counter_label = Some \<lparr> label_shown = Some (Counter 1 n
                      (case label_text (arr ! 0) of None \<Rightarrow> [] | Some t \<Rightarrow> c_str t)) \<rparr> \<rparr>
           \<and> g = \<lparr> user_data = Some d \<rparr>
           \<and> under_parent r = Some \<lparr> container_user_data = Some (Live d),
                                      delete_cb_registered = True, nav_buttons = bs \<rparr>
           \<and> data_alloc_ok env \<and> container_ok env \<and> prev_btn_ok env \<and> next_btn_ok env"
proof -
  obtain valid where v0: "validate_images_array imgs n = Inr valid"
  proof (cases "validate_images_array imgs n")
    case (Inl f)
    have "parent \<noteq> None"
    proof
      assume "parent = None"
      then have "lv_image_gallery_create env parent imgs n gallery_title gallery_config = Inr nothing_created"
        by (simp add: lv_image_gallery_create_def)
      then show False using c g by (simp add: nothing_created_def)
    qed
    then have "lv_image_gallery_create env parent imgs n gallery_title gallery_config = Inl f"
      using Inl by (simp add: lv_image_gallery_create_def)
    then show ?thesis using c by simp
  next
    case (Inr valid)
    then show ?thesis using that by blast
  qed
  have early: "\<not> (parent = None \<or> \<not> valid \<or> \<not> data_alloc_ok env \<or> \<not> container_ok env)"
  proof
    assume "parent = None \<or> \<not> valid \<or> \<not> data_alloc_ok env \<or> \<not> container_ok env"
    from create_early_failure [OF v0 this,
        where gallery_title = gallery_title and gallery_config = gallery_config]
    have "r = nothing_created" using c by simp
    then show False using g by (simp add: nothing_created_def)
  qed
  then have v: "validate_images_array imgs n = Inr True" and p: "parent \<noteq> None"
    and ok: "data_alloc_ok env" "container_ok env"
    using v0 by auto
  have btn: "prev_btn_ok env \<and> next_btn_ok env"
  proof (rule ccontr)
    assume "\<not> (prev_btn_ok env \<and> next_btn_ok env)"
    then have "\<not> prev_btn_ok env \<or> \<not> next_btn_ok env" by simp
    from create_button_failure [OF v p ok this,
        where gallery_title = gallery_title and gallery_config = gallery_config]
    have "returned r = None" using c by auto
    then show False using g by simp
  qed
  from validate_images_array_True [OF v] obtain arr where
    arr: "imgs = Some arr" "0 < sint n" "sint n \<le> int (length arr)"
      "\<forall>j < nat (sint n). img_src (arr ! j) \<noteq> None"
    by blast
  have first: "img_src (arr ! 0) \<noteq> None"
    using arr(2,4) by simp
  define d where "d = \<lparr> images = Some arr, image_count = n, current_index = 0,
               img_obj = Some \<lparr> src = img_src (arr ! 0) \<rparr>,
               counter_label = Some \<lparr> label_shown = Some (Counter 1 n
                 (case label_text (arr ! 0) of None \<Rightarrow> [] | Some t \<Rightarrow> c_str t)) \<rparr> \<rparr>"
  from create_all_ok [OF arr(1,2,3) first v p ok _ _ d_def, of gallery_title gallery_config] btn
  obtain bs where "lv_image_gallery_create env parent imgs n gallery_title gallery_config =
           Inr \<lparr> returned = Some \<lparr> user_data = Some d \<rparr>,
                 under_parent = Some \<lparr> container_user_data = Some (Live d),
                                       delete_cb_registered = True, nav_buttons = bs \<rparr> \<rparr>"
    by blast
  then have "g = \<lparr> user_data = Some d \<rparr>"
    and "under_parent r = Some \<lparr> container_user_data = Some (Live d),
                                      delete_cb_registered = True, nav_buttons = bs \<rparr>"
    using c g by auto
  then show ?thesis
    using arr(1,2,3) first d_def ok btn by blast
qed

lemma addressable_sum_fits:
  assumes "array_addressable arr" "sint n \<le> int (length arr)" "sint i < sint n"
  shows "sint i - 1 + sint n < 2 ^ 31"
proof -
  have "12 * int (length arr) < 2 ^ 32"
    using assms(1) by (simp add: array_addressable_def sizeof_lv_gallery_image_t_def)
  then show ?thesis
    using assms(2,3) by simp
qed

lemma get_store_gallery_data:
  "get_gallery_data gallery = Some data \<Longrightarrow> get_gallery_data (store_gallery_data gallery data') = Some data'"
  by (auto simp: get_gallery_data_def store_gallery_data_def split: option.splits)

lemma gallery_move_to:
  assumes data: "get_gallery_data gallery = Some data"
    and arr: "images data = Some arr" "sint (image_count data) \<le> int (length arr)"
    and r: "c_rem a (image_count data) = Inr r"
  shows "\<exists>data'. update_gallery_display (data\<lparr>current_index := r\<rparr>) = Inr data'
           \<and> current_index data' = r \<and> image_count data' = image_count data
           \<and> images data' = images data
           \<and> get_gallery_data (store_gallery_data gallery data') = Some data'"
proof -
  from update_gallery_display_ok [of "data\<lparr>current_index := r\<rparr>" arr] arr
  obtain data' where "update_gallery_display (data\<lparr>current_index := r\<rparr>) = Inr data'"
    "current_index data' = r" "image_count data' = image_count data" "images data' = images data"
    by auto
  then show ?thesis
    using get_store_gallery_data [OF data] by simp
qed

lemma gallery_next_step:
  assumes data: "get_gallery_data gallery = Some data"
    and arr: "images data = Some arr" "sint (image_count data) \<le> int (length arr)"
    and idx: "0 \<le> sint (current_index data)" "sint (current_index data) < sint (image_count data)"
  shows "\<exists>g data'. lv_image_gallery_next gallery = Inr g \<and> next_button_event_cb gallery = Inr g
           \<and> get_gallery_data g = Some data'
           \<and> sint (current_index data') = (sint (current_index data) + 1) mod sint (image_count data)
           \<and> image_count data' = image_count data \<and> images data' = images data"
proof -
  have s: "sint (current_index data + 1) = sint (current_index data) + 1"
    using idx(2) by (rule sint_succ_no_overflow)
  from c_rem_nonneg [of "current_index data + 1" "image_count data"] s idx
  obtain r where r: "c_rem (current_index data + 1) (image_count data) = Inr r"
    "sint r = (sint (current_index data) + 1) mod sint (image_count data)"
    by auto
  from gallery_move_to [OF data arr r(1)] obtain data' where
    "update_gallery_display (data\<lparr>current_index := r\<rparr>) = Inr data'"
    "current_index data' = r" "image_count data' = image_count data" "images data' = images data"
    "get_gallery_data (store_gallery_data gallery data') = Some data'"
    by blast
  then show ?thesis
    using data r by (simp add: lv_image_gallery_next_def next_button_event_cb_def)
qed

lemma gallery_prev_step:
  assumes data: "get_gallery_data gallery = Some data"
    and arr: "images data = Some arr" "sint (image_count data) \<le> int (length arr)"
    and idx: "0 \<le> sint (current_index data)" "sint (current_index data) < sint (image_count data)"
    and fit: "sint (current_index data) - 1 + sint (image_count data) < 2 ^ 31"
  shows "\<exists>g data'. lv_image_gallery_prev gallery = Inr g \<and> prev_button_event_cb gallery = Inr g
           \<and> get_gallery_data g = Some data'
           \<and> sint (current_index data') =
               (sint (current_index data) - 1 + sint (image_count data)) mod sint (image_count data)
           \<and> image_count data' = image_count data \<and> images data' = images data"
proof -
  have a: "sint (current_index data - 1) = sint (current_index data) - 1"
    using idx(1) sint_lt [of "current_index data"]
    by (simp add: sint_word_ariths signed_take_bit_int_eq_self)
  have "sint (current_index data - 1 + image_count data)
      = signed_take_bit 31 (sint (current_index data - 1) + sint (image_count data))"
    by (simp add: sint_word_ariths)
  also have "\<dots> = sint (current_index data) - 1 + sint (image_count data)"
    using a idx fit by (simp add: signed_take_bit_int_eq_self)
  finally have s: "sint (current_index data - 1 + image_count data)
      = sint (current_index data) - 1 + sint (image_count data)" .
  from c_rem_nonneg [of "current_index data - 1 + image_count data" "image_count data"] s idx
  obtain r where r: "c_rem (current_index data - 1 + image_count data) (image_count data) = Inr r"
    "sint r = (sint (current_index data) - 1 + sint (image_count data)) mod sint (image_count data)"
    by auto
  from gallery_move_to [OF data arr r(1)] obtain data' where
    "update_gallery_display (data\<lparr>current_index := r\<rparr>) = Inr data'"
    "current_index data' = r" "image_count data' = image_count data" "images data' = images data"
    "get_gallery_data (store_gallery_data gallery data') = Some data'"
    by blast
  then show ?thesis
    using data r by (simp add: lv_image_gallery_prev_def prev_button_event_cb_def)
qed

lemma get_index_of_data:
  "get_gallery_data g = Some data \<Longrightarrow> lv_image_gallery_get_index g = current_index data"
  by (simp add: lv_image_gallery_get_index_def)

lemmas gallery_eval =
  get_gallery_data_def store_gallery_data_def update_gallery_display_def array_get_def
  c_rem_def signed_modulo_int_def lv_image_gallery_next_def lv_image_gallery_prev_def
  lv_image_gallery_get_index_def lv_image_gallery_set_index_def c_str_def

subsection \<open>Navigation\<close>

text \<open>
  C1. For a gallery over \<open>n \<ge> 1\<close> images at index \<open>i\<close>, \<open>0 \<le> i < n\<close>, whose array the
  target can hold: \<open>lv_image_gallery_next\<close> and the Next button set the index to
  \<open>(i + 1) mod n\<close>, and \<open>lv_image_gallery_prev\<close> and the Previous button set it to
  \<open>(i - 1 + n) mod n\<close>. From \<open>n - 1\<close> the step forward wraps to 0, and from 0 the step
  back wraps to \<open>n - 1\<close>.
\<close>

theorem gallery_next_prev_index:
  assumes data: "get_gallery_data gallery = Some data"
    and arr: "images data = Some arr" "sint (image_count data) \<le> int (length arr)"
    and addressable: "array_addressable arr"
    and idx: "0 \<le> sint (current_index data)" "sint (current_index data) < sint (image_count data)"
  shows "(\<exists>g. lv_image_gallery_next gallery = Inr g \<and> next_button_event_cb gallery = Inr g
            \<and> sint (lv_image_gallery_get_index g) =
                (sint (current_index data) + 1) mod sint (image_count data)
            \<and> (sint (current_index data) = sint (image_count data) - 1
                 \<longrightarrow> lv_image_gallery_get_index g = 0))
       \<and> (\<exists>g. lv_image_gallery_prev gallery = Inr g \<and> prev_button_event_cb gallery = Inr g
            \<and> sint (lv_image_gallery_get_index g) =
                (sint (current_index data) - 1 + sint (image_count data)) mod sint (image_count data)
            \<and> (current_index data = 0
                 \<longrightarrow> sint (lv_image_gallery_get_index g) = sint (image_count data) - 1))"
proof (intro conjI)
  from gallery_next_step [OF data arr idx] obtain g data' where
    g: "lv_image_gallery_next gallery = Inr g" "next_button_event_cb gallery = Inr g"
      "get_gallery_data g = Some data'"
      "sint (current_index data') = (sint (current_index data) + 1) mod sint (image_count data)"
    by blast
  have i: "sint (lv_image_gallery_get_index g) = (sint (current_index data) + 1) mod sint (image_count data)"
    using g(3,4) by (simp add: get_index_of_data)
  have "sint (current_index data) = sint (image_count data) - 1 \<longrightarrow> lv_image_gallery_get_index g = 0"
  proof
    assume "sint (current_index data) = sint (image_count data) - 1"
    then have "sint (lv_image_gallery_get_index g) = 0"
      using i by simp
    then show "lv_image_gallery_get_index g = 0"
      by (simp add: signed_word_eqI)
  qed
  then show "\<exists>g. lv_image_gallery_next gallery = Inr g \<and> next_button_event_cb gallery = Inr g
            \<and> sint (lv_image_gallery_get_index g) =
                (sint (current_index data) + 1) mod sint (image_count data)
            \<and> (sint (current_index data) = sint (image_count data) - 1
                 \<longrightarrow> lv_image_gallery_get_index g = 0)"
    using g(1,2) i by blast
next
  have fit: "sint (current_index data) - 1 + sint (image_count data) < 2 ^ 31"
    using addressable arr(2) idx(2) by (rule addressable_sum_fits)
  from gallery_prev_step [OF data arr idx fit] obtain g data' where
    g: "lv_image_gallery_prev gallery = Inr g" "prev_button_event_cb gallery = Inr g"
      "get_gallery_data g = Some data'"
      "sint (current_index data') =
         (sint (current_index data) - 1 + sint (image_count data)) mod sint (image_count data)"
    by blast
  have i: "sint (lv_image_gallery_get_index g) =
      (sint (current_index data) - 1 + sint (image_count data)) mod sint (image_count data)"
    using g(3,4) by (simp add: get_index_of_data)
  have "current_index data = 0 \<longrightarrow> sint (lv_image_gallery_get_index g) = sint (image_count data) - 1"
  proof
    assume z: "current_index data = 0"
    have e: "sint (current_index data) - 1 + sint (image_count data) = sint (image_count data) - 1"
      using z by simp
    have "(sint (image_count data) - 1) mod sint (image_count data) = sint (image_count data) - 1"
      using idx z by (intro mod_pos_pos_trivial) auto
    then show "sint (lv_image_gallery_get_index g) = sint (image_count data) - 1"
      using i by (simp only: e)
  qed
  then show "\<exists>g. lv_image_gallery_prev gallery = Inr g \<and> prev_button_event_cb gallery = Inr g
            \<and> sint (lv_image_gallery_get_index g) =
                (sint (current_index data) - 1 + sint (image_count data)) mod sint (image_count data)
            \<and> (current_index data = 0
                 \<longrightarrow> sint (lv_image_gallery_get_index g) = sint (image_count data) - 1)"
    using g(1,2) i by blast
qed

theorem gallery_next_prev_index_witness:
  "get_gallery_data (Some (demo_gallery 2)) = Some (demo_data 2)
   \<and> images (demo_data 2) = Some demo_images
   \<and> sint (image_count (demo_data 2)) \<le> int (length demo_images)
   \<and> array_addressable demo_images
   \<and> 0 \<le> sint (current_index (demo_data 2))
   \<and> sint (current_index (demo_data 2)) < sint (image_count (demo_data 2))
   \<and> (\<exists>g. lv_image_gallery_next (Some (demo_gallery 2)) = Inr g \<and> lv_image_gallery_get_index g = 0)
   \<and> (\<exists>g. lv_image_gallery_prev (Some (demo_gallery 2)) = Inr g \<and> sint (lv_image_gallery_get_index g) = 1)"
proof -
  have h1: "get_gallery_data (Some (demo_gallery 2)) = Some (demo_data 2)"
    by (simp add: get_gallery_data_def demo_gallery_def)
  have h2: "images (demo_data 2) = Some demo_images"
    by (simp add: demo_data_def)
  have h3: "sint (image_count (demo_data 2)) \<le> int (length demo_images)"
    by (simp add: demo_data_def demo_images_def)
  have h4: "0 \<le> sint (current_index (demo_data 2))"
    by (simp add: demo_data_def)
  have h5: "sint (current_index (demo_data 2)) < sint (image_count (demo_data 2))"
    by (simp add: demo_data_def)
  have h6: "array_addressable demo_images"
    by (simp add: array_addressable_def sizeof_lv_gallery_image_t_def demo_images_def)
  have last: "sint (current_index (demo_data 2)) = sint (image_count (demo_data 2)) - 1"
    by (simp add: demo_data_def)
  have m: "(sint (current_index (demo_data 2)) - 1 + sint (image_count (demo_data 2)))
      mod sint (image_count (demo_data 2)) = 1"
    by (simp add: demo_data_def)
  from gallery_next_prev_index [OF h1 h2 h3 h6 h4 h5] last m
  have "(\<exists>g. lv_image_gallery_next (Some (demo_gallery 2)) = Inr g \<and> lv_image_gallery_get_index g = 0)
      \<and> (\<exists>g. lv_image_gallery_prev (Some (demo_gallery 2)) = Inr g \<and> sint (lv_image_gallery_get_index g) = 1)"
    by auto
  then show ?thesis
    using h1 h2 h3 h4 h5 h6 by blast
qed

subsection \<open>Creation\<close>

text \<open>
  C6, as the code has it. When \<open>image_count\<close> does not exceed the extent of the array
  passed, \<open>lv_image_gallery_create\<close> returns \<open>NULL\<close> exactly when the parent is \<open>NULL\<close>,
  the images array is \<open>NULL\<close>, \<open>image_count \<le> 0\<close>, one of the first \<open>image_count\<close>
  images has a \<open>NULL\<close> source, or \<open>lv_malloc\<close> of the data, \<open>lv_obj_create\<close> of the
  container or \<open>lv_btn_create\<close> of a navigation button fails; whether the label of a
  button could be created plays no part. When it returns \<open>NULL\<close> for a reason other than
  a button, nothing has been created under the parent. On success the current index is
  0, the image object shows the source of the first image of the array, and the
  container under the parent carries the gallery data.
\<close>

theorem gallery_create_null_iff:
  assumes extent: "\<And>arr. imgs = Some arr \<Longrightarrow> sint n \<le> int (length arr)"
  shows "\<exists>r. lv_image_gallery_create env parent imgs n gallery_title gallery_config = Inr r
           \<and> (returned r = None \<longleftrightarrow>
                parent = None \<or> imgs = None \<or> sint n \<le> 0
                \<or> (\<exists>arr j. imgs = Some arr \<and> j < nat (sint n) \<and> img_src (arr ! j) = None)
                \<or> \<not> data_alloc_ok env \<or> \<not> container_ok env
                \<or> \<not> prev_btn_ok env \<or> \<not> next_btn_ok env)
           \<and> (parent = None \<or> imgs = None \<or> sint n \<le> 0
                \<or> (\<exists>arr j. imgs = Some arr \<and> j < nat (sint n) \<and> img_src (arr ! j) = None)
                \<or> \<not> data_alloc_ok env \<or> \<not> container_ok env
                \<longrightarrow> r = nothing_created)
           \<and> (\<forall>g arr. returned r = Some g \<and> imgs = Some arr \<longrightarrow>
                lv_image_gallery_get_index (Some g) = 0
                \<and> map_option img_obj (user_data g) = Some (Some \<lparr> src = img_src (arr ! 0) \<rparr>)
                \<and> img_src (arr ! 0) \<noteq> None
                \<and> map_option container_user_data (under_parent r)
                    = Some (map_option Live (user_data g)))"
proof -
  let ?valid = "\<exists>arr. imgs = Some arr \<and> 0 < sint n \<and> (\<forall>j < nat (sint n). img_src (arr ! j) \<noteq> None)"
  let ?bad = "imgs = None \<or> sint n \<le> 0
        \<or> (\<exists>arr j. imgs = Some arr \<and> j < nat (sint n) \<and> img_src (arr ! j) = None)"
  note v = validate_images_array_result [of imgs n, OF extent]
  have bad: "?bad \<longleftrightarrow> \<not> ?valid"
    by (cases imgs) (auto simp: not_less)
  show ?thesis
  proof (cases "parent = None \<or> \<not> ?valid \<or> \<not> data_alloc_ok env \<or> \<not> container_ok env")
    case True
    then have c: "lv_image_gallery_create env parent imgs n gallery_title gallery_config = Inr nothing_created"
      using v by (intro create_early_failure [where valid = ?valid]) auto
    have n: "returned nothing_created = None"
      by (simp add: nothing_created_def)
    have A: "returned nothing_created = None \<longleftrightarrow>
                parent = None \<or> imgs = None \<or> sint n \<le> 0
                \<or> (\<exists>arr j. imgs = Some arr \<and> j < nat (sint n) \<and> img_src (arr ! j) = None)
                \<or> \<not> data_alloc_ok env \<or> \<not> container_ok env
                \<or> \<not> prev_btn_ok env \<or> \<not> next_btn_ok env"
      using True bad n by blast
    have B: "parent = None \<or> imgs = None \<or> sint n \<le> 0
                \<or> (\<exists>arr j. imgs = Some arr \<and> j < nat (sint n) \<and> img_src (arr ! j) = None)
                \<or> \<not> data_alloc_ok env \<or> \<not> container_ok env
                \<longrightarrow> nothing_created = nothing_created"
      by simp
    have C: "\<forall>g arr. returned nothing_created = Some g \<and> imgs = Some arr \<longrightarrow>
                lv_image_gallery_get_index (Some g) = 0
                \<and> map_option img_obj (user_data g) = Some (Some \<lparr> src = img_src (arr ! 0) \<rparr>)
                \<and> img_src (arr ! 0) \<noteq> None
                \<and> map_option container_user_data (under_parent nothing_created)
                    = Some (map_option Live (user_data g))"
      using n by simp
    show ?thesis
      by (rule exI [of _ nothing_created]) (intro conjI c A B C)
  next
    case False
    then have p: "parent \<noteq> None" and valid: ?valid
      and ok: "data_alloc_ok env" "container_ok env"
      by auto
    have vt: "validate_images_array imgs n = Inr True"
      using v valid by simp
    have early: "\<not> (parent = None \<or> imgs = None \<or> sint n \<le> 0
                \<or> (\<exists>arr j. imgs = Some arr \<and> j < nat (sint n) \<and> img_src (arr ! j) = None)
                \<or> \<not> data_alloc_ok env \<or> \<not> container_ok env)"
      using bad valid p ok by blast
    show ?thesis
    proof (cases "prev_btn_ok env \<and> next_btn_ok env")
      case False
      then have "\<not> prev_btn_ok env \<or> \<not> next_btn_ok env" by simp
      from create_button_failure [OF vt p ok this,
          where gallery_title = gallery_title and gallery_config = gallery_config]
      obtain r where c: "lv_image_gallery_create env parent imgs n gallery_title gallery_config = Inr r"
        and n: "returned r = None"
        by auto
      have A: "returned r = None \<longleftrightarrow>
                parent = None \<or> imgs = None \<or> sint n \<le> 0
                \<or> (\<exists>arr j. imgs = Some arr \<and> j < nat (sint n) \<and> img_src (arr ! j) = None)
                \<or> \<not> data_alloc_ok env \<or> \<not> container_ok env
                \<or> \<not> prev_btn_ok env \<or> \<not> next_btn_ok env"
        using False n by blast
      have B: "parent = None \<or> imgs = None \<or> sint n \<le> 0
                \<or> (\<exists>arr j. imgs = Some arr \<and> j < nat (sint n) \<and> img_src (arr ! j) = None)
                \<or> \<not> data_alloc_ok env \<or> \<not> container_ok env
                \<longrightarrow> r = nothing_created"
        using early by blast
      have C: "\<forall>g arr. returned r = Some g \<and> imgs = Some arr \<longrightarrow>
                lv_image_gallery_get_index (Some g) = 0
                \<and> map_option img_obj (user_data g) = Some (Some \<lparr> src = img_src (arr ! 0) \<rparr>)
                \<and> img_src (arr ! 0) \<noteq> None
                \<and> map_option container_user_data (under_parent r)
                    = Some (map_option Live (user_data g))"
        using n by simp
      show ?thesis
        by (rule exI [of _ r]) (intro conjI c A B C)
    next
      case True
      from valid obtain arr where arr: "imgs = Some arr" "0 < sint n"
        "\<forall>j < nat (sint n). img_src (arr ! j) \<noteq> None"
        by blast
      have first: "img_src (arr ! 0) \<noteq> None"
        using arr(2,3) by simp
      define d where "d = \<lparr> images = Some arr, image_count = n, current_index = 0,
               img_obj = Some \<lparr> src = img_src (arr ! 0) \<rparr>,
               counter_label = Some \<lparr> label_shown = Some (Counter 1 n
                 (case label_text (arr ! 0) of None \<Rightarrow> [] | Some t \<Rightarrow> c_str t)) \<rparr> \<rparr>"
      from create_all_ok [OF arr(1,2) extent [OF arr(1)] first vt p ok _ _ d_def,
          of gallery_title gallery_config] True
      obtain r where c: "lv_image_gallery_create env parent imgs n gallery_title gallery_config = Inr r"
        and ret: "returned r = Some \<lparr> user_data = Some d \<rparr>"
        and under: "map_option container_user_data (under_parent r) = Some (Some (Live d))"
        by auto
      have A: "returned r = None \<longleftrightarrow>
                parent = None \<or> imgs = None \<or> sint n \<le> 0
                \<or> (\<exists>arr j. imgs = Some arr \<and> j < nat (sint n) \<and> img_src (arr ! j) = None)
                \<or> \<not> data_alloc_ok env \<or> \<not> container_ok env
                \<or> \<not> prev_btn_ok env \<or> \<not> next_btn_ok env"
        using True early ret by auto
      have B: "parent = None \<or> imgs = None \<or> sint n \<le> 0
                \<or> (\<exists>arr j. imgs = Some arr \<and> j < nat (sint n) \<and> img_src (arr ! j) = None)
                \<or> \<not> data_alloc_ok env \<or> \<not> container_ok env
                \<longrightarrow> r = nothing_created"
        using early by blast
      have C: "\<forall>g arr. returned r = Some g \<and> imgs = Some arr \<longrightarrow>
                lv_image_gallery_get_index (Some g) = 0
                \<and> map_option img_obj (user_data g) = Some (Some \<lparr> src = img_src (arr ! 0) \<rparr>)
                \<and> img_src (arr ! 0) \<noteq> None
                \<and> map_option container_user_data (under_parent r)
                    = Some (map_option Live (user_data g))"
        using ret under arr(1) first
        by (auto simp: d_def lv_image_gallery_get_index_def get_gallery_data_def)
      show ?thesis
        by (rule exI [of _ r]) (intro conjI c A B C)
    qed
  qed
qed

lemma demo_images_valid: "validate_images_array (Some demo_images) 3 = Inr True"
proof -
  have "validate_images_array (Some demo_images) 3 =
      Inr (\<exists>arr. Some demo_images = Some arr \<and> 0 < sint (3 :: int32)
             \<and> (\<forall>j < nat (sint (3 :: int32)). img_src (arr ! j) \<noteq> None))"
    by (rule validate_images_array_result) (auto simp: demo_images_def)
  then show ?thesis
    by (simp add: demo_images_def less_Suc_eq numeral_3_eq_3)
qed

lemmas create_eval =
  lv_image_gallery_create_def demo_images_valid all_ok_def create_nav_button_result
  lv_image_gallery_get_default_config_def update_gallery_display_def array_get_def
  demo_gallery_def demo_data_def demo_container_def demo_prev_button_def demo_next_button_def
  prev_button_event_cb_addr_def next_button_event_cb_addr_def buttons_container_addr_def
  c_str_def Let_def

theorem gallery_create_null_iff_witness:
  "sint (3 :: int32) \<le> int (length demo_images)
   \<and> lv_image_gallery_create all_ok (Some 0) (Some demo_images) 3 None None
       = Inr \<lparr> returned = Some (demo_gallery 0),
               under_parent = Some (demo_container (Live (demo_data 0))
                                      [demo_prev_button, demo_next_button]) \<rparr>
   \<and> lv_image_gallery_get_index (Some (demo_gallery 0)) = 0
   \<and> lv_image_gallery_create all_ok None (Some demo_images) 3 None None = Inr nothing_created"
proof -
  have ext: "\<And>arr. Some demo_images = Some arr \<Longrightarrow> sint (3 :: int32) \<le> int (length arr)"
    by (auto simp: demo_images_def)
  have c: "lv_image_gallery_create all_ok (Some 0) (Some demo_images) 3 None None
       = Inr \<lparr> returned = Some (demo_gallery 0),
               under_parent = Some (demo_container (Live (demo_data 0))
                                      [demo_prev_button, demo_next_button]) \<rparr>"
    using demo_images_valid by (simp add: create_eval) (simp add: demo_images_def)
  from gallery_create_null_iff [of "Some demo_images" 3 all_ok "Some 0" None None, OF ext] c
  have i: "lv_image_gallery_get_index (Some (demo_gallery 0)) = 0"
    by auto
  from gallery_create_null_iff [of "Some demo_images" 3 all_ok None None None, OF ext]
  have "lv_image_gallery_create all_ok None (Some demo_images) 3 None None = Inr nothing_created"
    by auto
  then show ?thesis
    using c i by (simp add: demo_images_def)
qed

text \<open>
  A button whose label could not be created is an internal creation that fails, and the
  gallery is returned all the same. And when \<open>lv_btn_create\<close> fails for the Next button,
  \<open>NULL\<close> is returned while the container stays under the parent, with its delete
  handler, the Previous button and user data that points to freed memory.
\<close>

theorem gallery_create_internal_failure_counterexample:
  "lv_image_gallery_create (all_ok\<lparr> prev_label_ok := False \<rparr>) (Some 0) (Some demo_images) 3 None None
     = Inr \<lparr> returned = Some (demo_gallery 0),
             under_parent = Some (demo_container (Live (demo_data 0))
                                    [demo_prev_button\<lparr> nav_label := None \<rparr>, demo_next_button]) \<rparr>
   \<and> lv_image_gallery_create (all_ok\<lparr> next_btn_ok := False \<rparr>) (Some 0) (Some demo_images) 3 None None
     = Inr \<lparr> returned = None,
             under_parent = Some (demo_container Freed [demo_prev_button]) \<rparr>"
  using demo_images_valid by (simp add: create_eval) (simp add: demo_images_def)

subsection \<open>The index invariant\<close>

text \<open>
  C8. \<open>0 \<le> current_index < image_count\<close> holds after creation, where the index is 0,
  and is preserved by \<open>lv_image_gallery_next\<close>, by \<open>lv_image_gallery_set_index\<close>, and
  by \<open>lv_image_gallery_prev\<close> on every gallery whose array the target can hold; none of
  them changes the array or the count. \<open>lv_image_gallery_set_index\<close> returns true and
  sets the index to its argument exactly when \<open>0 \<le> index < image_count\<close>, and otherwise
  returns false and leaves the gallery as it was.
\<close>

theorem gallery_index_invariant:
  "(\<forall>r g. lv_image_gallery_create env parent imgs n gallery_title gallery_config = Inr r
          \<and> returned r = Some g
        \<longrightarrow> gallery_inv (Some g) \<and> lv_image_gallery_get_index (Some g) = 0
            \<and> map_option images (get_gallery_data (Some g)) = Some imgs)
   \<and> (\<forall>data arr. gallery_inv gallery \<and> get_gallery_data gallery = Some data
          \<and> images data = Some arr \<longrightarrow>
        (\<exists>g'. lv_image_gallery_next gallery = Inr g' \<and> gallery_inv g'
               \<and> map_option images (get_gallery_data g') = Some (Some arr)
               \<and> map_option image_count (get_gallery_data g') = Some (image_count data))
        \<and> (array_addressable arr
             \<longrightarrow> (\<exists>g'. lv_image_gallery_prev gallery = Inr g' \<and> gallery_inv g'
                    \<and> map_option images (get_gallery_data g') = Some (Some arr)
                    \<and> map_option image_count (get_gallery_data g') = Some (image_count data)))
        \<and> (if 0 \<le> sint index \<and> sint index < sint (image_count data)
            then \<exists>g'. lv_image_gallery_set_index gallery index = Inr (True, g')
                   \<and> lv_image_gallery_get_index g' = index \<and> gallery_inv g'
                   \<and> map_option images (get_gallery_data g') = Some (Some arr)
                   \<and> map_option image_count (get_gallery_data g') = Some (image_count data)
            else lv_image_gallery_set_index gallery index = Inr (False, gallery)))"
proof (intro conjI allI impI)
  fix r g
  assume "lv_image_gallery_create env parent imgs n gallery_title gallery_config = Inr r
          \<and> returned r = Some g"
  then have c: "lv_image_gallery_create env parent imgs n gallery_title gallery_config = Inr r"
    and g: "returned r = Some g"
    by simp_all
  from gallery_create_success [OF c g]
  show "gallery_inv (Some g)" and "lv_image_gallery_get_index (Some g) = 0"
    and "map_option images (get_gallery_data (Some g)) = Some imgs"
    by (auto simp: gallery_inv_def get_gallery_data_def lv_image_gallery_get_index_def)
next
  fix data arr
  assume a: "gallery_inv gallery \<and> get_gallery_data gallery = Some data \<and> images data = Some arr"
  then have data: "get_gallery_data gallery = Some data"
    and arr: "images data = Some arr" "sint (image_count data) \<le> int (length arr)"
    and idx: "0 \<le> sint (current_index data)" "sint (current_index data) < sint (image_count data)"
    by (auto simp: gallery_inv_def split: option.splits)
  have pos: "0 < sint (image_count data)"
    using idx by simp
  from gallery_next_step [OF data arr idx] pos arr
  show "\<exists>g'. lv_image_gallery_next gallery = Inr g' \<and> gallery_inv g'
               \<and> map_option images (get_gallery_data g') = Some (Some arr)
               \<and> map_option image_count (get_gallery_data g') = Some (image_count data)"
    by (auto simp: gallery_inv_def)
  {
    assume "array_addressable arr"
    then have fit: "sint (current_index data) - 1 + sint (image_count data) < 2 ^ 31"
      using arr(2) idx(2) by (rule addressable_sum_fits)
    from gallery_prev_step [OF data arr idx fit] pos arr idx
    show "\<exists>g'. lv_image_gallery_prev gallery = Inr g' \<and> gallery_inv g'
               \<and> map_option images (get_gallery_data g') = Some (Some arr)
               \<and> map_option image_count (get_gallery_data g') = Some (image_count data)"
      by (auto simp: gallery_inv_def)
  }
  show "if 0 \<le> sint index \<and> sint index < sint (image_count data)
        then \<exists>g'. lv_image_gallery_set_index gallery index = Inr (True, g')
               \<and> lv_image_gallery_get_index g' = index \<and> gallery_inv g'
               \<and> map_option images (get_gallery_data g') = Some (Some arr)
               \<and> map_option image_count (get_gallery_data g') = Some (image_count data)
        else lv_image_gallery_set_index gallery index = Inr (False, gallery)"
  proof (cases "0 \<le> sint index \<and> sint index < sint (image_count data)")
    case False
    then show ?thesis
      using data by (auto simp: lv_image_gallery_set_index_def)
  next
    case True
    from update_gallery_display_ok [of "data\<lparr>current_index := index\<rparr>" arr] arr
    obtain data' where d': "update_gallery_display (data\<lparr>current_index := index\<rparr>) = Inr data'"
      "current_index data' = index" "image_count data' = image_count data" "images data' = images data"
      by auto
    have "get_gallery_data (store_gallery_data gallery data') = Some data'"
      using get_store_gallery_data [OF data] .
    then show ?thesis
      using True data d' arr
      by (auto simp: lv_image_gallery_set_index_def gallery_inv_def lv_image_gallery_get_index_def)
  qed
qed

theorem gallery_index_invariant_witness:
  "gallery_inv (Some (demo_gallery 1))
   \<and> get_gallery_data (Some (demo_gallery 1)) = Some (demo_data 1)
   \<and> images (demo_data 1) = Some demo_images
   \<and> array_addressable demo_images
   \<and> (\<exists>g'. lv_image_gallery_next (Some (demo_gallery 1)) = Inr g' \<and> gallery_inv g')
   \<and> (\<exists>g'. lv_image_gallery_prev (Some (demo_gallery 1)) = Inr g' \<and> gallery_inv g')
   \<and> (\<exists>g'. lv_image_gallery_set_index (Some (demo_gallery 1)) 2 = Inr (True, g')
          \<and> lv_image_gallery_get_index g' = 2 \<and> gallery_inv g')
   \<and> lv_image_gallery_set_index (Some (demo_gallery 1)) 3 = Inr (False, Some (demo_gallery 1))"
proof -
  have inv: "gallery_inv (Some (demo_gallery 1))"
    by (simp add: gallery_inv_def get_gallery_data_def demo_gallery_def demo_data_def demo_images_def)
  have d: "get_gallery_data (Some (demo_gallery 1)) = Some (demo_data 1)"
    by (simp add: get_gallery_data_def demo_gallery_def)
  have im: "images (demo_data 1) = Some demo_images"
    by (simp add: demo_data_def)
  have ad: "array_addressable demo_images"
    by (simp add: array_addressable_def sizeof_lv_gallery_image_t_def demo_images_def)
  have c: "image_count (demo_data 1) = 3"
    by (simp add: demo_data_def)
  from gallery_index_invariant [of all_ok None None 0 None None "Some (demo_gallery 1)" 2] inv d im ad c
  have a: "(\<exists>g'. lv_image_gallery_next (Some (demo_gallery 1)) = Inr g' \<and> gallery_inv g')
      \<and> (\<exists>g'. lv_image_gallery_prev (Some (demo_gallery 1)) = Inr g' \<and> gallery_inv g')
      \<and> (\<exists>g'. lv_image_gallery_set_index (Some (demo_gallery 1)) 2 = Inr (True, g')
          \<and> lv_image_gallery_get_index g' = 2 \<and> gallery_inv g')"
    by (simp, blast)
  from gallery_index_invariant [of all_ok None None 0 None None "Some (demo_gallery 1)" 3] inv d im c
  have b: "lv_image_gallery_set_index (Some (demo_gallery 1)) 3 = Inr (False, Some (demo_gallery 1))"
    by simp
  show ?thesis
    using inv d im ad a b by blast
qed

section \<open>Properties of lv_pull_refresh.c\<close>

subsection \<open>What the handlers and the public functions leave behind\<close>

lemma update_indicator_display_fields:
  "state (update_indicator_display d) = state d"
  "lv_pull_refresh_data_t.config (update_indicator_display d) = lv_pull_refresh_data_t.config d"
  "current_pull_distance (update_indicator_display d) = current_pull_distance d"
  "refresh_triggered (update_indicator_display d) = refresh_triggered d"
  "last_refresh_time (update_indicator_display d) = last_refresh_time d"
  "enabled (update_indicator_display d) = enabled d"
  by (simp_all add: update_indicator_display_def split: prod.splits)

lemma set_pull_state_fields:
  assumes "set_pull_state d s = (d', fx)"
  shows "state d' = s"
    and "lv_pull_refresh_data_t.config d' = lv_pull_refresh_data_t.config d"
    and "current_pull_distance d' = current_pull_distance d"
    and "refresh_triggered d' = refresh_triggered d"
    and "last_refresh_time d' = last_refresh_time d"
    and "enabled d' = enabled d"
    and "RefreshCb \<notin> set fx"
    and "state d = s \<Longrightarrow> d' = d \<and> fx = []"
  using assms
  by (auto simp: set_pull_state_def Let_def update_indicator_display_fields split: if_splits)

lemma get_store_pull_refresh_data:
  "get_pull_refresh_data c = Some d \<Longrightarrow> get_pull_refresh_data (store_pull_refresh_data c d') = Some d'"
  by (auto simp: get_pull_refresh_data_def store_pull_refresh_data_def split: option.splits)

lemma store_store_pull_refresh_data:
  "store_pull_refresh_data (store_pull_refresh_data c d) d' = store_pull_refresh_data c d'"
  by (cases c) (simp_all add: store_pull_refresh_data_def)

lemma scroll_event_scroll:
  assumes d: "get_pull_refresh_data container = Some data" and en: "enabled data"
  shows "\<exists>data' fx. scroll_event_cb LV_EVENT_SCROLL scroll_y t container =
             (store_pull_refresh_data container data', fx)
           \<and> current_pull_distance data' = - scroll_y
           \<and> lv_pull_refresh_data_t.config data' = lv_pull_refresh_data_t.config data
           \<and> refresh_triggered data' = refresh_triggered data
           \<and> enabled data' = enabled data
           \<and> RefreshCb \<notin> set fx
           \<and> state data' =
               (if state data = PULL_STATE_REFRESHING then PULL_STATE_REFRESHING
                else if sint (- scroll_y) \<le> 0 then PULL_STATE_IDLE
                else if sint (- scroll_y) < sint (pull_threshold (lv_pull_refresh_data_t.config data))
                then PULL_STATE_PULLING else PULL_STATE_READY)"
proof -
  let ?d = "data\<lparr>current_pull_distance := - scroll_y\<rparr>"
  show ?thesis
  proof (cases "state data = PULL_STATE_REFRESHING")
    case True
    then show ?thesis
      using d en by (auto simp: scroll_event_cb_def Let_def)
  next
    case False
    let ?s = "if sint (- scroll_y) \<le> 0 then PULL_STATE_IDLE
              else if sint (- scroll_y) < sint (pull_threshold (lv_pull_refresh_data_t.config data))
              then PULL_STATE_PULLING else PULL_STATE_READY"
    obtain data' fx where sp: "set_pull_state ?d ?s = (data', fx)"
      by (cases "set_pull_state ?d ?s") auto
    have "scroll_event_cb LV_EVENT_SCROLL scroll_y t container = (store_pull_refresh_data container data', fx)"
      using d en False sp by (auto simp: scroll_event_cb_def Let_def split: if_splits)
    then show ?thesis
      using set_pull_state_fields [OF sp] False by auto
  qed
qed

lemma scroll_end_while_refreshing:
  assumes "get_pull_refresh_data container = Some data" "state data = PULL_STATE_REFRESHING"
  shows "scroll_event_cb LV_EVENT_SCROLL_END y t container = (container, [])"
  using assms by (simp add: scroll_event_cb_def)

lemma complete_result:
  assumes "get_pull_refresh_data container = Some data"
  shows "\<exists>data' fx. lv_pull_refresh_complete container = (store_pull_refresh_data container data', fx)
           \<and> state data' = PULL_STATE_IDLE \<and> \<not> refresh_triggered data' \<and> RefreshCb \<notin> set fx"
proof -
  let ?d = "data\<lparr>refresh_triggered := False, current_pull_distance := 0\<rparr>"
  obtain data' fx where sp: "set_pull_state ?d PULL_STATE_IDLE = (data', fx)"
    by (cases "set_pull_state ?d PULL_STATE_IDLE") auto
  have "lv_pull_refresh_complete container = (store_pull_refresh_data container data', fx @ [ScrollToY 0])"
    using assms sp by (simp add: lv_pull_refresh_complete_def)
  then show ?thesis
    using set_pull_state_fields [OF sp] by auto
qed

lemma pull_step_result:
  assumes d: "get_pull_refresh_data c = Some data"
  shows "\<exists>data' fx. pull_step_exec s c = (store_pull_refresh_data c data', fx)"
proof -
  have self: "c = store_pull_refresh_data c data"
    using d by (cases c) (auto simp: get_pull_refresh_data_def store_pull_refresh_data_def split: option.splits)
  show ?thesis
  proof (cases s)
    case (Scroll y)
    show ?thesis
    proof (cases "enabled data")
      case True
      from scroll_event_scroll [OF d True, of y 0] show ?thesis
        using Scroll by auto
    next
      case False
      then have "pull_step_exec s c = (c, [])"
        using Scroll d by (simp add: scroll_event_cb_def)
      then show ?thesis using self by metis
    qed
  next
    case (ScrollEnd t)
    show ?thesis
      using ScrollEnd d self
      by (auto simp: scroll_event_cb_def split: prod.splits)
  next
    case Complete
    from complete_result [OF d] show ?thesis
      using Complete by auto
  next
    case IsRefreshing
    then show ?thesis using self by (metis pull_step_exec.simps(4))
  next
    case (SetRefreshing b)
    show ?thesis
    proof (cases b)
      case True
      then show ?thesis
        using SetRefreshing d by (auto simp: lv_pull_refresh_set_refreshing_def split: prod.splits)
    next
      case False
      from complete_result [OF d] show ?thesis
        using SetRefreshing False d by (auto simp: lv_pull_refresh_set_refreshing_def)
    qed
  next
    case GetPullDistance
    then show ?thesis using self by (metis pull_step_exec.simps(6))
  next
    case (SetEnabled b)
    let ?d = "data\<lparr>enabled := b\<rparr>"
    have g: "get_pull_refresh_data (store_pull_refresh_data c ?d) = Some ?d"
      using get_store_pull_refresh_data [OF d] .
    from complete_result [OF g] show ?thesis
      using SetEnabled d
      by (auto simp: lv_pull_refresh_set_enabled_def Let_def store_store_pull_refresh_data)
  qed
qed

lemma pull_run_keeps_data:
  "get_pull_refresh_data c = Some data \<Longrightarrow>
     \<exists>data'. get_pull_refresh_data (fst (pull_run steps c)) = Some data'"
proof (induction steps arbitrary: c data)
  case Nil
  then show ?case by simp
next
  case (Cons s steps)
  from pull_step_result [OF Cons.prems, of s] obtain d1 fx where
    r: "pull_step_exec s c = (store_pull_refresh_data c d1, fx)"
    by blast
  have "get_pull_refresh_data (store_pull_refresh_data c d1) = Some d1"
    using get_store_pull_refresh_data [OF Cons.prems] .
  from Cons.IH [OF this] show ?case
    using r by (auto split: prod.splits)
qed

lemma pull_create_result:
  assumes "lv_pull_refresh_create env parent cfg = Some c"
  shows "\<exists>data. get_pull_refresh_data (Some c) = Some data \<and> state data = PULL_STATE_IDLE
           \<and> current_pull_distance data = 0 \<and> \<not> refresh_triggered data \<and> enabled data
           \<and> cfg = Some (lv_pull_refresh_data_t.config data)"
  using assms
  by (auto simp: lv_pull_refresh_create_def Let_def get_pull_refresh_data_def
      split: option.splits if_splits)

lemma scroll_step_while_refreshing:
  assumes d: "get_pull_refresh_data c = Some data" and r: "state data = PULL_STATE_REFRESHING"
    and s: "is_scroll_event s"
  shows "\<exists>c' data' fx. pull_step_exec s c = (c', fx) \<and> get_pull_refresh_data c' = Some data'
           \<and> state data' = PULL_STATE_REFRESHING \<and> RefreshCb \<notin> set fx"
proof (cases s)
  case (Scroll y)
  show ?thesis
  proof (cases "enabled data")
    case True
    from scroll_event_scroll [OF d True, of y 0] obtain data' fx where
      "scroll_event_cb LV_EVENT_SCROLL y 0 c = (store_pull_refresh_data c data', fx)"
      "RefreshCb \<notin> set fx" "state data' = PULL_STATE_REFRESHING"
      using r by auto
    then show ?thesis
      using Scroll get_store_pull_refresh_data [OF d] by auto
  next
    case False
    then show ?thesis
      using Scroll d r by (simp add: scroll_event_cb_def)
  qed
next
  case (ScrollEnd t)
  then show ?thesis
    using scroll_end_while_refreshing [OF d r] d r by simp
qed (use s in simp_all)

lemma scroll_run_while_refreshing:
  "get_pull_refresh_data c = Some data \<Longrightarrow> state data = PULL_STATE_REFRESHING \<Longrightarrow>
   \<forall>s \<in> set steps. is_scroll_event s \<Longrightarrow>
     map_option state (get_pull_refresh_data (fst (pull_run steps c))) = Some PULL_STATE_REFRESHING
     \<and> RefreshCb \<notin> set (snd (pull_run steps c))"
proof (induction steps arbitrary: c data)
  case Nil
  then show ?case by simp
next
  case (Cons s steps)
  have "is_scroll_event s"
    using Cons.prems(3) by simp
  from scroll_step_while_refreshing [OF Cons.prems(1,2) this] obtain c' data' fx where
    st: "pull_step_exec s c = (c', fx)" "get_pull_refresh_data c' = Some data'"
      "state data' = PULL_STATE_REFRESHING" "RefreshCb \<notin> set fx"
    by blast
  have "\<forall>s \<in> set steps. is_scroll_event s"
    using Cons.prems(3) by simp
  from Cons.IH [OF st(2,3) this] show ?case
    using st(1,4) by (auto split: prod.splits)
qed

lemma leave_refreshing_step:
  assumes d: "get_pull_refresh_data c = Some data" and r: "state data = PULL_STATE_REFRESHING"
  shows "\<exists>data'. get_pull_refresh_data (fst (pull_step_exec step c)) = Some data'
           \<and> (if step \<in> {Complete, SetRefreshing False, SetEnabled False}
               then state data' = PULL_STATE_IDLE \<and> \<not> refresh_triggered data'
               else state data' = PULL_STATE_REFRESHING)"
proof (cases step)
  case (Scroll y)
  from scroll_step_while_refreshing [OF d r, of step] show ?thesis
    using Scroll by auto
next
  case (ScrollEnd t)
  from scroll_step_while_refreshing [OF d r, of step] show ?thesis
    using ScrollEnd by auto
next
  case Complete
  from complete_result [OF d] show ?thesis
    using Complete get_store_pull_refresh_data [OF d] by auto
next
  case IsRefreshing
  then show ?thesis using d r by simp
next
  case (SetRefreshing b)
  show ?thesis
  proof (cases b)
    case True
    then show ?thesis
      using SetRefreshing d r get_store_pull_refresh_data [OF d]
      by (auto simp: lv_pull_refresh_set_refreshing_def set_pull_state_def)
  next
    case False
    from complete_result [OF d] show ?thesis
      using SetRefreshing False d get_store_pull_refresh_data [OF d]
      by (auto simp: lv_pull_refresh_set_refreshing_def)
  qed
next
  case GetPullDistance
  then show ?thesis using d r by simp
next
  case (SetEnabled b)
  let ?d = "data\<lparr>enabled := b\<rparr>"
  have g: "get_pull_refresh_data (store_pull_refresh_data c ?d) = Some ?d"
    using get_store_pull_refresh_data [OF d] .
  show ?thesis
  proof (cases b)
    case True
    then show ?thesis
      using SetEnabled d r g by (simp add: lv_pull_refresh_set_enabled_def Let_def)
  next
    case False
    from complete_result [OF g] obtain data' fx where
      "lv_pull_refresh_complete (store_pull_refresh_data c ?d) =
         (store_pull_refresh_data (store_pull_refresh_data c ?d) data', fx)"
      "state data' = PULL_STATE_IDLE" "\<not> refresh_triggered data'"
      by blast
    then show ?thesis
      using SetEnabled False d r get_store_pull_refresh_data [OF g]
      by (simp add: lv_pull_refresh_set_enabled_def Let_def)
  qed
qed

lemmas pull_eval =
  get_pull_refresh_data_def store_pull_refresh_data_def scroll_event_cb_def set_pull_state_def
  update_indicator_display_def indicator_for_def lv_pull_refresh_complete_def
  lv_pull_refresh_set_refreshing_def lv_pull_refresh_set_enabled_def
  lv_pull_refresh_is_refreshing_def lv_pull_refresh_get_pull_distance_def
  lv_pull_refresh_create_def lv_pull_refresh_get_default_config_def
  PULL_DEFAULT_THRESHOLD_def PULL_DEFAULT_INDICATOR_SIZE_def PULL_REFRESH_COOLDOWN_def
  demo_pull_config_def pull_all_ok_def demo_pull_data_def demo_pull_container_def c_str_def Let_def

subsection \<open>Pull-distance thresholds\<close>

text \<open>
  C2, with the order of the tests. A scroll event delivered to an enabled container that is not refreshing
  stores the negated scroll offset as the pull distance and leaves the state that the
  distance and the configured \<open>pull_threshold\<close> alone determine: \<open>PULL_STATE_IDLE\<close> when
  the distance is \<open>\<le> 0\<close>, \<open>PULL_STATE_PULLING\<close> when \<open>0 < distance < pull_threshold\<close>,
  and \<open>PULL_STATE_READY\<close> when \<open>distance > 0\<close> and \<open>distance \<ge> pull_threshold\<close>. The
  distance is the 32-bit negation the handler stores.
\<close>

theorem scroll_event_state:
  assumes "get_pull_refresh_data container = Some data"
    and "enabled data"
    and "state data \<noteq> PULL_STATE_REFRESHING"
  shows "\<exists>data'. get_pull_refresh_data (fst (scroll_event_cb LV_EVENT_SCROLL scroll_y t container)) = Some data'
           \<and> current_pull_distance data' = - scroll_y
           \<and> state data' =
               (if sint (current_pull_distance data') \<le> 0 then PULL_STATE_IDLE
                else if sint (current_pull_distance data')
                          < sint (pull_threshold (lv_pull_refresh_data_t.config data))
                then PULL_STATE_PULLING
                else PULL_STATE_READY)"
proof -
  from scroll_event_scroll [OF assms(1,2), of scroll_y t] obtain data' fx where
    r: "scroll_event_cb LV_EVENT_SCROLL scroll_y t container = (store_pull_refresh_data container data', fx)"
      "current_pull_distance data' = - scroll_y"
      "state data' =
               (if state data = PULL_STATE_REFRESHING then PULL_STATE_REFRESHING
                else if sint (- scroll_y) \<le> 0 then PULL_STATE_IDLE
                else if sint (- scroll_y) < sint (pull_threshold (lv_pull_refresh_data_t.config data))
                then PULL_STATE_PULLING else PULL_STATE_READY)"
    by blast
  have "get_pull_refresh_data (fst (scroll_event_cb LV_EVENT_SCROLL scroll_y t container)) = Some data'"
    using r(1) get_store_pull_refresh_data [OF assms(1)] by simp
  then show ?thesis
    using r(2,3) assms(3) by auto
qed

theorem scroll_event_state_witness:
  "get_pull_refresh_data (Some demo_pull_container) = Some demo_pull_data
   \<and> enabled demo_pull_data
   \<and> state demo_pull_data \<noteq> PULL_STATE_REFRESHING
   \<and> map_option state (get_pull_refresh_data
         (fst (scroll_event_cb LV_EVENT_SCROLL (- 30) 0 (Some demo_pull_container)))) = Some PULL_STATE_READY
   \<and> map_option state (get_pull_refresh_data
         (fst (scroll_event_cb LV_EVENT_SCROLL (- 10) 0 (Some demo_pull_container)))) = Some PULL_STATE_PULLING
   \<and> map_option state (get_pull_refresh_data
         (fst (scroll_event_cb LV_EVENT_SCROLL 4 0 (Some demo_pull_container)))) = Some PULL_STATE_IDLE"
proof -
  have h1: "get_pull_refresh_data (Some demo_pull_container) = Some demo_pull_data"
    by (simp add: get_pull_refresh_data_def demo_pull_container_def)
  have h2: "enabled demo_pull_data"
    by (simp add: demo_pull_data_def)
  have h3: "state demo_pull_data \<noteq> PULL_STATE_REFRESHING"
    by (simp add: demo_pull_data_def)
  have th: "pull_threshold (lv_pull_refresh_data_t.config demo_pull_data) = 25"
    by (simp add: demo_pull_data_def demo_pull_config_def lv_pull_refresh_get_default_config_def
        PULL_DEFAULT_THRESHOLD_def)
  from scroll_event_state [OF h1 h2 h3, of "- 30" 0] th
  have a: "map_option state (get_pull_refresh_data
         (fst (scroll_event_cb LV_EVENT_SCROLL (- 30) 0 (Some demo_pull_container)))) = Some PULL_STATE_READY"
    by auto
  from scroll_event_state [OF h1 h2 h3, of "- 10" 0] th
  have b: "map_option state (get_pull_refresh_data
         (fst (scroll_event_cb LV_EVENT_SCROLL (- 10) 0 (Some demo_pull_container)))) = Some PULL_STATE_PULLING"
    by auto
  from scroll_event_state [OF h1 h2 h3, of 4 0] th
  have c: "map_option state (get_pull_refresh_data
         (fst (scroll_event_cb LV_EVENT_SCROLL 4 0 (Some demo_pull_container)))) = Some PULL_STATE_IDLE"
    by auto
  show ?thesis
    using h1 h2 h3 a b c by blast
qed

text \<open>
  The test \<open>distance \<le> 0\<close> comes first, so with a threshold that is not positive a
  distance that reaches the threshold need not give \<open>PULL_STATE_READY\<close>: a container
  created with \<open>pull_threshold = 0\<close> and scrolled to offset 0 has distance 0, which is
  \<open>\<ge> pull_threshold\<close>, and is in \<open>PULL_STATE_IDLE\<close>.
\<close>

theorem scroll_event_zero_threshold_counterexample:
  "lv_pull_refresh_create pull_all_ok (Some 0) (Some (demo_pull_config\<lparr> pull_threshold := 0 \<rparr>))
     = Some zero_threshold_container
   \<and> map_option enabled (get_pull_refresh_data (Some zero_threshold_container)) = Some True
   \<and> map_option state (get_pull_refresh_data (Some zero_threshold_container)) = Some PULL_STATE_IDLE
   \<and> map_option (pull_threshold \<circ> lv_pull_refresh_data_t.config)
        (get_pull_refresh_data (Some zero_threshold_container)) = Some 0
   \<and> lv_pull_refresh_get_pull_distance
        (fst (scroll_event_cb LV_EVENT_SCROLL 0 0 (Some zero_threshold_container))) = 0
   \<and> map_option state (get_pull_refresh_data
        (fst (scroll_event_cb LV_EVENT_SCROLL 0 0 (Some zero_threshold_container)))) = Some PULL_STATE_IDLE
   \<and> PULL_STATE_IDLE \<noteq> PULL_STATE_READY"
  by (simp add: pull_eval zero_threshold_container_def)

subsection \<open>The four states\<close>

text \<open>
  C5. \<open>lv_pull_state_t\<close> has exactly the four values \<open>PULL_STATE_IDLE\<close>,
  \<open>PULL_STATE_PULLING\<close>, \<open>PULL_STATE_READY\<close> and \<open>PULL_STATE_REFRESHING\<close>. A container
  starts in \<open>PULL_STATE_IDLE\<close>, and after any sequence of scroll events, scroll-end events
  and calls of the public functions it still carries its data, in one of the four states.
\<close>

theorem pull_state_reachable:
  "(UNIV :: lv_pull_state_t set) =
      {PULL_STATE_IDLE, PULL_STATE_PULLING, PULL_STATE_READY, PULL_STATE_REFRESHING}
   \<and> card (UNIV :: lv_pull_state_t set) = 4
   \<and> (\<forall>c. lv_pull_refresh_create env parent cfg = Some c \<longrightarrow>
        map_option state (get_pull_refresh_data (Some c)) = Some PULL_STATE_IDLE
        \<and> (\<forall>steps. \<exists>data'.
              get_pull_refresh_data (fst (pull_run steps (Some c))) = Some data'
              \<and> state data' \<in> {PULL_STATE_IDLE, PULL_STATE_PULLING, PULL_STATE_READY,
                                 PULL_STATE_REFRESHING}))"
proof -
  have u: "(UNIV :: lv_pull_state_t set) =
      {PULL_STATE_IDLE, PULL_STATE_PULLING, PULL_STATE_READY, PULL_STATE_REFRESHING}"
  proof -
    have "x \<in> {PULL_STATE_IDLE, PULL_STATE_PULLING, PULL_STATE_READY, PULL_STATE_REFRESHING}"
      for x :: lv_pull_state_t
      by (cases x) simp_all
    then show ?thesis by blast
  qed
  have k: "card (UNIV :: lv_pull_state_t set) = 4"
    by (simp add: u)
  have r: "map_option state (get_pull_refresh_data (Some c)) = Some PULL_STATE_IDLE
        \<and> (\<forall>steps. \<exists>data'.
              get_pull_refresh_data (fst (pull_run steps (Some c))) = Some data'
              \<and> state data' \<in> {PULL_STATE_IDLE, PULL_STATE_PULLING, PULL_STATE_READY,
                                 PULL_STATE_REFRESHING})"
    if c: "lv_pull_refresh_create env parent cfg = Some c" for c
  proof -
    from pull_create_result [OF c] obtain data where
      d: "get_pull_refresh_data (Some c) = Some data" "state data = PULL_STATE_IDLE"
      by blast
    have "\<exists>data'. get_pull_refresh_data (fst (pull_run steps (Some c))) = Some data'
              \<and> state data' \<in> {PULL_STATE_IDLE, PULL_STATE_PULLING, PULL_STATE_READY,
                                 PULL_STATE_REFRESHING}" for steps
      using pull_run_keeps_data [OF d(1), of steps] u by blast
    then show ?thesis
      using d by simp
  qed
  show ?thesis
    using u k r by blast
qed

theorem pull_state_reachable_witness:
  "lv_pull_refresh_create pull_all_ok (Some 0) (Some demo_pull_config) = Some demo_pull_container
   \<and> map_option state (get_pull_refresh_data (Some demo_pull_container)) = Some PULL_STATE_IDLE
   \<and> map_option state (get_pull_refresh_data
        (fst (pull_run [Scroll (- 10)] (Some demo_pull_container)))) = Some PULL_STATE_PULLING
   \<and> map_option state (get_pull_refresh_data
        (fst (pull_run [Scroll (- 10), Scroll (- 30)] (Some demo_pull_container)))) = Some PULL_STATE_READY
   \<and> map_option state (get_pull_refresh_data
        (fst (pull_run [Scroll (- 10), Scroll (- 30), ScrollEnd 5000] (Some demo_pull_container))))
        = Some PULL_STATE_REFRESHING
   \<and> map_option state (get_pull_refresh_data
        (fst (pull_run [Scroll (- 10), Scroll (- 30), ScrollEnd 5000, Complete] (Some demo_pull_container))))
        = Some PULL_STATE_IDLE"
proof -
  have c: "lv_pull_refresh_create pull_all_ok (Some 0) (Some demo_pull_config) = Some demo_pull_container"
    by (simp add: pull_eval)
  from pull_state_reachable [of pull_all_ok "Some 0" "Some demo_pull_config"] c
  have i: "map_option state (get_pull_refresh_data (Some demo_pull_container)) = Some PULL_STATE_IDLE"
    by blast
  have "map_option state (get_pull_refresh_data
        (fst (pull_run [Scroll (- 10)] (Some demo_pull_container)))) = Some PULL_STATE_PULLING"
    by (simp add: pull_eval)
  moreover have "map_option state (get_pull_refresh_data
        (fst (pull_run [Scroll (- 10), Scroll (- 30)] (Some demo_pull_container)))) = Some PULL_STATE_READY"
    by (simp add: pull_eval)
  moreover have "map_option state (get_pull_refresh_data
        (fst (pull_run [Scroll (- 10), Scroll (- 30), ScrollEnd 5000] (Some demo_pull_container))))
        = Some PULL_STATE_REFRESHING"
    by (simp add: pull_eval)
  moreover have "map_option state (get_pull_refresh_data
        (fst (pull_run [Scroll (- 10), Scroll (- 30), ScrollEnd 5000, Complete] (Some demo_pull_container))))
        = Some PULL_STATE_IDLE"
    by (simp add: pull_eval)
  ultimately show ?thesis
    using c i by blast
qed

subsection \<open>Refreshing\<close>

text \<open>
  C10. While a container is in \<open>PULL_STATE_REFRESHING\<close>, no sequence of scroll and
  scroll-end events changes its state or invokes the refresh callback. A single step takes
  the state out of \<open>PULL_STATE_REFRESHING\<close> only if it is \<open>lv_pull_refresh_complete\<close>,
  \<open>lv_pull_refresh_set_refreshing(container, false)\<close> or
  \<open>lv_pull_refresh_set_enabled(container, false)\<close>, and each of these leaves
  \<open>PULL_STATE_IDLE\<close> with \<open>refresh_triggered\<close> cleared.
\<close>

theorem refreshing_left_only_by_completion:
  assumes "get_pull_refresh_data container = Some data"
    and "state data = PULL_STATE_REFRESHING"
  shows "((\<forall>s \<in> set steps. is_scroll_event s) \<longrightarrow>
            map_option state (get_pull_refresh_data (fst (pull_run steps container)))
              = Some PULL_STATE_REFRESHING
            \<and> RefreshCb \<notin> set (snd (pull_run steps container)))
       \<and> (\<exists>data'. get_pull_refresh_data (fst (pull_step_exec step container)) = Some data'
            \<and> (state data' \<noteq> PULL_STATE_REFRESHING
                 \<longrightarrow> step \<in> {Complete, SetRefreshing False, SetEnabled False})
            \<and> (step \<in> {Complete, SetRefreshing False, SetEnabled False}
                 \<longrightarrow> state data' = PULL_STATE_IDLE \<and> \<not> refresh_triggered data'))"
proof (intro conjI impI)
  assume "\<forall>s \<in> set steps. is_scroll_event s"
  from scroll_run_while_refreshing [OF assms this]
  show "map_option state (get_pull_refresh_data (fst (pull_run steps container)))
          = Some PULL_STATE_REFRESHING"
    and "RefreshCb \<notin> set (snd (pull_run steps container))"
    by simp_all
next
  from leave_refreshing_step [OF assms, of step] obtain data' where
    d': "get_pull_refresh_data (fst (pull_step_exec step container)) = Some data'"
      "if step \<in> {Complete, SetRefreshing False, SetEnabled False}
       then state data' = PULL_STATE_IDLE \<and> \<not> refresh_triggered data'
       else state data' = PULL_STATE_REFRESHING"
    by blast
  have "(state data' \<noteq> PULL_STATE_REFRESHING
          \<longrightarrow> step \<in> {Complete, SetRefreshing False, SetEnabled False})
      \<and> (step \<in> {Complete, SetRefreshing False, SetEnabled False}
          \<longrightarrow> state data' = PULL_STATE_IDLE \<and> \<not> refresh_triggered data')"
    using d'(2) by (auto split: if_splits)
  then show "\<exists>data'. get_pull_refresh_data (fst (pull_step_exec step container)) = Some data'
            \<and> (state data' \<noteq> PULL_STATE_REFRESHING
                 \<longrightarrow> step \<in> {Complete, SetRefreshing False, SetEnabled False})
            \<and> (step \<in> {Complete, SetRefreshing False, SetEnabled False}
                 \<longrightarrow> state data' = PULL_STATE_IDLE \<and> \<not> refresh_triggered data')"
    using d'(1) by blast
qed

theorem refreshing_left_only_by_completion_witness:
  "fst (pull_run [Scroll (- 10), Scroll (- 30), ScrollEnd 5000] (Some demo_pull_container))
     = Some refreshing_container
   \<and> map_option state (get_pull_refresh_data (Some refreshing_container)) = Some PULL_STATE_REFRESHING
   \<and> list_all is_scroll_event [Scroll (- 40), ScrollEnd 9000, Scroll 0, ScrollEnd 9100]
   \<and> map_option state (get_pull_refresh_data
        (fst (pull_run [Scroll (- 40), ScrollEnd 9000, Scroll 0, ScrollEnd 9100] (Some refreshing_container))))
        = Some PULL_STATE_REFRESHING
   \<and> RefreshCb \<notin> set (snd (pull_run [Scroll (- 40), ScrollEnd 9000, Scroll 0, ScrollEnd 9100]
        (Some refreshing_container)))
   \<and> map_option state (get_pull_refresh_data
        (fst (pull_step_exec (SetEnabled False) (Some refreshing_container)))) = Some PULL_STATE_IDLE
   \<and> map_option refresh_triggered (get_pull_refresh_data
        (fst (pull_step_exec (SetEnabled False) (Some refreshing_container)))) = Some False"
proof -
  have reach: "fst (pull_run [Scroll (- 10), Scroll (- 30), ScrollEnd 5000] (Some demo_pull_container))
     = Some refreshing_container"
    by (simp add: pull_eval refreshing_container_def)
  obtain data where d: "get_pull_refresh_data (Some refreshing_container) = Some data"
    and r: "state data = PULL_STATE_REFRESHING"
    by (simp add: get_pull_refresh_data_def refreshing_container_def)
  have sc: "\<forall>s \<in> set [Scroll (- 40), ScrollEnd 9000, Scroll 0, ScrollEnd 9100]. is_scroll_event s"
    by simp
  have m: "SetEnabled False \<in> {Complete, SetRefreshing False, SetEnabled False}"
    by simp
  from refreshing_left_only_by_completion [OF d r,
      of "[Scroll (- 40), ScrollEnd 9000, Scroll 0, ScrollEnd 9100]" "SetEnabled False"] sc m
  have "map_option state (get_pull_refresh_data
        (fst (pull_run [Scroll (- 40), ScrollEnd 9000, Scroll 0, ScrollEnd 9100] (Some refreshing_container))))
        = Some PULL_STATE_REFRESHING
   \<and> RefreshCb \<notin> set (snd (pull_run [Scroll (- 40), ScrollEnd 9000, Scroll 0, ScrollEnd 9100]
        (Some refreshing_container)))
   \<and> map_option state (get_pull_refresh_data
        (fst (pull_step_exec (SetEnabled False) (Some refreshing_container)))) = Some PULL_STATE_IDLE
   \<and> map_option refresh_triggered (get_pull_refresh_data
        (fst (pull_step_exec (SetEnabled False) (Some refreshing_container)))) = Some False"
    by auto
  then show ?thesis
    using reach d r sc by auto
qed

section \<open>Properties of lv_expandable_card.c\<close>

lemma update_card_display_expanded:
  "expanded (update_card_display a data) = expanded data"
  by (simp add: update_card_display_def Let_def split: option.splits)

lemma get_store_card_data:
  "get_card_data c = Some data \<Longrightarrow> get_card_data (store_card_data c data') = Some data'"
  by (auto simp: get_card_data_def store_card_data_def split: option.splits)

lemma card_toggle_data:
  assumes "get_card_data c = Some data"
  shows "get_card_data (lv_expandable_card_toggle a c)
           = Some (update_card_display a (data\<lparr>expanded := \<not> expanded data\<rparr>))"
  using assms get_store_card_data [OF assms] by (simp add: lv_expandable_card_toggle_def)

lemmas card_eval =
  get_card_data_def store_card_data_def update_card_display_def lv_label_set_text_def
  create_truncated_text_def utf8_char_count_def utf8_char_to_byte_pos_def utf8_lead_byte_def
  lv_expandable_card_toggle_def lv_expandable_card_set_expanded_def
  lv_expandable_card_is_expanded_def expand_button_event_cb_def lv_expandable_card_create_def
  validate_card_data_def lv_expandable_card_get_default_config_def
  CARD_DEFAULT_TRUNCATE_LENGTH_def card_all_ok_def demo_article_def demo_card_def c_str_def Let_def

subsection \<open>Expanding and collapsing\<close>

text \<open>
  C3. On a card that carries widget data, \<open>lv_expandable_card_toggle\<close> (and a click on
  the expand button) negates the expanded flag, so two toggles give back the flag the
  card started with, whatever the allocator answers in between;
  \<open>lv_expandable_card_set_expanded(card, b)\<close> returns true and
  \<open>lv_expandable_card_is_expanded\<close> then returns \<open>b\<close>.
\<close>

theorem card_toggle_set_expanded:
  assumes "get_card_data c = Some data"
  shows "lv_expandable_card_is_expanded (lv_expandable_card_toggle a c)
           = (\<not> lv_expandable_card_is_expanded c)
       \<and> lv_expandable_card_is_expanded (fst (expand_button_event_cb a c))
           = (\<not> lv_expandable_card_is_expanded c)
       \<and> lv_expandable_card_is_expanded (lv_expandable_card_toggle a' (lv_expandable_card_toggle a c))
           = lv_expandable_card_is_expanded c
       \<and> fst (lv_expandable_card_set_expanded a c b) = True
       \<and> lv_expandable_card_is_expanded (snd (lv_expandable_card_set_expanded a c b)) = b"
proof -
  have t1: "get_card_data (lv_expandable_card_toggle a c)
      = Some (update_card_display a (data\<lparr>expanded := \<not> expanded data\<rparr>))"
    using assms by (rule card_toggle_data)
  have t2: "get_card_data (lv_expandable_card_toggle a' (lv_expandable_card_toggle a c))
      = Some (update_card_display a'
          ((update_card_display a (data\<lparr>expanded := \<not> expanded data\<rparr>))
             \<lparr>expanded := \<not> expanded (update_card_display a (data\<lparr>expanded := \<not> expanded data\<rparr>))\<rparr>))"
    using t1 by (rule card_toggle_data)
  have e: "get_card_data (fst (expand_button_event_cb a c))
      = Some (update_card_display a (data\<lparr>expanded := \<not> expanded data\<rparr>))"
    using assms get_store_card_data [OF assms] by (simp add: expand_button_event_cb_def Let_def)
  have s: "lv_expandable_card_set_expanded a c b
      = (True, store_card_data c (update_card_display a (data\<lparr>expanded := b\<rparr>)))"
    using assms by (simp add: lv_expandable_card_set_expanded_def)
  show ?thesis
    using assms t1 t2 e s get_store_card_data [OF assms]
    by (simp add: lv_expandable_card_is_expanded_def update_card_display_expanded)
qed

theorem card_toggle_set_expanded_witness:
  "lv_expandable_card_create card_all_ok (Some 0) (Some demo_article) None = Some (demo_card False)
   \<and> get_card_data (Some (demo_card False)) = user_data (demo_card False)
   \<and> lv_expandable_card_toggle True (Some (demo_card False)) = Some (demo_card True)
   \<and> lv_expandable_card_toggle True (Some (demo_card True)) = Some (demo_card False)
   \<and> lv_expandable_card_is_expanded (Some (demo_card True)) = True
   \<and> lv_expandable_card_is_expanded (Some (demo_card False)) = False
   \<and> lv_expandable_card_is_expanded (snd (lv_expandable_card_set_expanded True (Some (demo_card True)) False))
        = False"
proof -
  have c: "lv_expandable_card_create card_all_ok (Some 0) (Some demo_article) None = Some (demo_card False)"
    by (simp add: card_eval)
  obtain data where d: "get_card_data (Some (demo_card True)) = Some data"
    by (simp add: get_card_data_def demo_card_def)
  from card_toggle_set_expanded [OF d, of True True False]
  have "lv_expandable_card_is_expanded (snd (lv_expandable_card_set_expanded True (Some (demo_card True)) False))
        = False"
    by simp
  moreover have "lv_expandable_card_toggle True (Some (demo_card False)) = Some (demo_card True)"
    by (simp add: card_eval)
  moreover have "lv_expandable_card_toggle True (Some (demo_card True)) = Some (demo_card False)"
    by (simp add: card_eval)
  ultimately show ?thesis
    using c by (simp add: get_card_data_def demo_card_def lv_expandable_card_is_expanded_def)
qed

subsection \<open>Truncation\<close>

text \<open>
  For a text without a zero byte and shorter than \<open>2^31\<close> bytes, \<open>utf8_char_count\<close> is
  the number of bytes that are not continuation bytes. Asked for character number
  \<open>n \<ge> 1\<close> of a text with at least \<open>n\<close> characters, \<open>utf8_char_to_byte_pos\<close> returns the
  offset \<open>d\<close> of a byte that starts a character and has \<open>n - 1\<close> characters before it.
  So the text \<open>create_truncated_text\<close> builds for a content of more than \<open>L\<close> characters
  is a whole number of characters, \<open>L - (characters of the suffix) - 1\<close> of them,
  followed by the suffix.
\<close>

lemma sint_plus_one:
  fixes k :: int32
  assumes "sint k < 2 ^ 31 - 1"
  shows "sint (k + 1) = sint k + 1"
  using assms sint_ge [of k] by (simp add: sint_word_ariths signed_take_bit_int_eq_self)

lemma utf8_char_count_loop_leads:
  "CHR 0x00 \<notin> set p \<Longrightarrow> 0 \<le> sint k \<Longrightarrow> sint k + int (length p) < 2 ^ 31 \<Longrightarrow>
     sint (utf8_char_count_loop p k) = sint k + int (length (filter utf8_lead_byte p))"
proof (induction p arbitrary: k)
  case Nil
  then show ?case by simp
next
  case (Cons c p)
  have s: "sint (k + 1) = sint k + 1"
    using Cons.prems by (intro sint_plus_one) simp
  show ?case
  proof (cases "utf8_lead_byte c")
    case True
    have "sint (utf8_char_count_loop p (k + 1)) = sint (k + 1) + int (length (filter utf8_lead_byte p))"
      using Cons.prems s by (intro Cons.IH) simp_all
    then show ?thesis
      using True Cons.prems s by auto
  next
    case False
    have "sint (utf8_char_count_loop p k) = sint k + int (length (filter utf8_lead_byte p))"
      using Cons.prems by (intro Cons.IH) simp_all
    then show ?thesis
      using False Cons.prems by auto
  qed
qed

lemma utf8_byte_pos_loop_stops:
  "\<not> sint k < sint n \<Longrightarrow> utf8_byte_pos_loop p n k b = b"
  by (cases p) simp_all

lemma utf8_byte_pos_loop_cut:
  "CHR 0x00 \<notin> set p \<Longrightarrow> 0 \<le> sint k \<Longrightarrow> sint k < sint n \<Longrightarrow> 0 \<le> sint b \<Longrightarrow>
   sint b + int (length p) < 2 ^ 31 \<Longrightarrow>
   sint n - sint k \<le> int (length (filter utf8_lead_byte p)) \<Longrightarrow>
     \<exists>d < length p. sint (utf8_byte_pos_loop p n k b) = sint b + int d
        \<and> int (length (filter utf8_lead_byte (take d p))) = sint n - sint k - 1
        \<and> utf8_lead_byte (p ! d)"
proof (induction p arbitrary: k b)
  case Nil
  then show ?case by simp
next
  case (Cons c p)
  have nz: "c \<noteq> CHR 0x00"
    using Cons.prems(1) by auto
  have sb: "sint (b + 1) = sint b + 1"
    using Cons.prems by (intro sint_plus_one) simp
  have sk: "sint (k + 1) = sint k + 1"
    using Cons.prems(3) sint_lt [of n] by (intro sint_plus_one) simp
  show ?case
  proof (cases "utf8_lead_byte c")
    case lead: True
    show ?thesis
    proof (cases "sint (k + 1) < sint n")
      case more: True
      have "\<exists>d < length p. sint (utf8_byte_pos_loop p n (k + 1) (b + 1)) = sint (b + 1) + int d
        \<and> int (length (filter utf8_lead_byte (take d p))) = sint n - sint (k + 1) - 1
        \<and> utf8_lead_byte (p ! d)"
        using Cons.prems lead more sk sb by (intro Cons.IH) simp_all
      then obtain d where d: "d < length p"
        "sint (utf8_byte_pos_loop p n (k + 1) (b + 1)) = sint (b + 1) + int d"
        "int (length (filter utf8_lead_byte (take d p))) = sint n - sint (k + 1) - 1"
        "utf8_lead_byte (p ! d)"
        by blast
      have "utf8_byte_pos_loop (c # p) n k b = utf8_byte_pos_loop p n (k + 1) (b + 1)"
        using nz Cons.prems(3) lead more by (simp add: Let_def)
      then have "Suc d < length (c # p)
          \<and> sint (utf8_byte_pos_loop (c # p) n k b) = sint b + int (Suc d)
          \<and> int (length (filter utf8_lead_byte (take (Suc d) (c # p)))) = sint n - sint k - 1
          \<and> utf8_lead_byte ((c # p) ! Suc d)"
        using d lead sk sb by simp
      then show ?thesis by blast
    next
      case last: False
      have "utf8_byte_pos_loop (c # p) n k b = utf8_byte_pos_loop p n (k + 1) b"
        using nz Cons.prems(3) lead last by (simp add: Let_def)
      then have r: "utf8_byte_pos_loop (c # p) n k b = b"
        using last by (simp add: utf8_byte_pos_loop_stops)
      have "sint n - sint k - 1 = 0"
        using last sk Cons.prems(3) by simp
      then have "0 < length (c # p)
          \<and> sint (utf8_byte_pos_loop (c # p) n k b) = sint b + int 0
          \<and> int (length (filter utf8_lead_byte (take 0 (c # p)))) = sint n - sint k - 1
          \<and> utf8_lead_byte ((c # p) ! 0)"
        using r lead by simp
      then show ?thesis by blast
    qed
  next
    case cont: False
    have "\<exists>d < length p. sint (utf8_byte_pos_loop p n k (b + 1)) = sint (b + 1) + int d
        \<and> int (length (filter utf8_lead_byte (take d p))) = sint n - sint k - 1
        \<and> utf8_lead_byte (p ! d)"
      using Cons.prems cont sb by (intro Cons.IH) simp_all
    then obtain d where d: "d < length p"
      "sint (utf8_byte_pos_loop p n k (b + 1)) = sint (b + 1) + int d"
      "int (length (filter utf8_lead_byte (take d p))) = sint n - sint k - 1"
      "utf8_lead_byte (p ! d)"
      by blast
    have "utf8_byte_pos_loop (c # p) n k b = utf8_byte_pos_loop p n k (b + 1)"
      using nz Cons.prems(3) cont by (simp add: Let_def)
    then have "Suc d < length (c # p)
        \<and> sint (utf8_byte_pos_loop (c # p) n k b) = sint b + int (Suc d)
        \<and> int (length (filter utf8_lead_byte (take (Suc d) (c # p)))) = sint n - sint k - 1
        \<and> utf8_lead_byte ((c # p) ! Suc d)"
      using d cont sb by simp
    then show ?thesis by blast
  qed
qed

lemma c_str_no_nul: "CHR 0x00 \<notin> set s \<Longrightarrow> c_str s = s"
  by (auto simp: c_str_def takeWhile_eq_all_conv)

lemma create_truncated_text_short:
  "sint (utf8_char_count (Some ft)) \<le> sint L \<Longrightarrow>
     create_truncated_text True (Some ft) L s = Some (c_str ft)"
  by (simp add: create_truncated_text_def Let_def)

lemma create_truncated_text_cut:
  assumes nul: "CHR 0x00 \<notin> set ft" and len: "int (length ft) < 2 ^ 31"
    and sc: "sc = (case s of None \<Rightarrow> 0 | Some t \<Rightarrow> utf8_char_count (Some t))" "0 \<le> sint sc"
    and long: "sint L < int (length (filter utf8_lead_byte ft))"
    and room: "1 \<le> sint L - sint sc"
  shows "\<exists>d < length ft.
           create_truncated_text True (Some ft) L s
             = Some (take d ft @ (case s of None \<Rightarrow> [] | Some t \<Rightarrow> c_str t))
           \<and> int (length (filter utf8_lead_byte (take d ft))) = sint L - sint sc - 1
           \<and> utf8_lead_byte (ft ! d)"
proof -
  have cnt: "sint (utf8_char_count (Some ft)) = int (length (filter utf8_lead_byte ft))"
    using utf8_char_count_loop_leads [of ft 0] nul len by (simp add: utf8_char_count_def)
  have Lhi: "sint L < 2 ^ 31"
    using sint_lt [of L] by simp
  have tc: "sint (L - sc) = sint L - sint sc"
    using room sc(2) Lhi by (simp add: sint_word_ariths signed_take_bit_int_eq_self)
  have pos: "0 < sint (L - sc)"
    using tc room by simp
  have "\<exists>d < length ft. sint (utf8_byte_pos_loop ft (L - sc) 0 0) = sint (0 :: int32) + int d
        \<and> int (length (filter utf8_lead_byte (take d ft))) = sint (L - sc) - sint (0 :: int32) - 1
        \<and> utf8_lead_byte (ft ! d)"
    using nul pos len tc sc(2) long by (intro utf8_byte_pos_loop_cut) simp_all
  then obtain d where d: "d < length ft"
    "sint (utf8_byte_pos_loop ft (L - sc) 0 0) = int d"
    "int (length (filter utf8_lead_byte (take d ft))) = sint (L - sc) - 1"
    "utf8_lead_byte (ft ! d)"
    by auto
  have bp: "utf8_char_to_byte_pos (Some ft) (L - sc) = utf8_byte_pos_loop ft (L - sc) 0 0"
    using pos by (simp add: utf8_char_to_byte_pos_def)
  have "create_truncated_text True (Some ft) L s
      = Some (take d ft @ (case s of None \<Rightarrow> [] | Some t \<Rightarrow> c_str t))"
    using cnt long pos bp d(2) sc(1) c_str_no_nul [OF nul]
    by (cases s) (simp_all add: create_truncated_text_def Let_def)
  then show ?thesis
    using d tc by auto
qed

text \<open>
  C9. For a content of more than \<open>L\<close> characters \<open>create_truncated_text\<close> is meant to
  keep \<open>truncate_char_count = L - (characters of the suffix)\<close> characters and append the
  suffix. \<open>utf8_char_to_byte_pos\<close> stops advancing the byte position as soon as the count
  reaches \<open>char_pos\<close>, which is at the first byte of character number \<open>char_pos\<close>, so one
  character fewer is kept: ten ASCII characters cut to 5 with the suffix \<open>...\<close> give
  \<open>a...\<close>, not \<open>ab...\<close>, and three Hebrew letters cut to 2 without a suffix give the
  first letter alone. The cut itself falls between characters, and a content of at most
  \<open>L\<close> characters is copied whole.
\<close>

theorem create_truncated_text_drops_one_character:
  "utf8_char_count (Some ''abcdefghij'') = 10
   \<and> utf8_char_count (Some ''...'') = 3
   \<and> create_truncated_text True (Some ''abcdefghij'') 5 (Some ''...'') = Some ''a...''
   \<and> create_truncated_text True (Some ''abcdefghij'') 10 (Some ''...'') = Some ''abcdefghij''
   \<and> utf8_char_count (Some alef_bet_gimel) = 3
   \<and> create_truncated_text True (Some alef_bet_gimel) 2 None = Some [CHR 0xD7, CHR 0x90]
   \<and> create_truncated_text True (Some alef_bet_gimel) 2 (Some ''.'') = Some ''.''"
  by (simp add: create_truncated_text_def utf8_char_count_def utf8_char_to_byte_pos_def
      utf8_lead_byte_def c_str_def alef_bet_gimel_def Let_def)

section \<open>Null checks\<close>

lemma null_widget_gallery: "null_widget g \<Longrightarrow> get_gallery_data g = None"
  by (auto simp: null_widget_def get_gallery_data_def split: option.splits)

lemma null_widget_card: "null_widget c \<Longrightarrow> get_card_data c = None"
  by (auto simp: null_widget_def get_card_data_def split: option.splits)

lemma null_widget_pull: "null_widget p \<Longrightarrow> get_pull_refresh_data p = None"
  by (auto simp: null_widget_def get_pull_refresh_data_def split: option.splits)

lemma not_null_widget_card: "\<not> null_widget c \<Longrightarrow> \<exists>data. get_card_data c = Some data"
  by (auto simp: null_widget_def get_card_data_def split: option.splits)

lemma gallery_prev_returns:
  assumes data: "get_gallery_data gallery = Some data"
    and arr: "images data = Some arr" "sint (image_count data) \<le> int (length arr)"
    and pos: "0 < sint (image_count data)"
  shows "\<exists>g'. lv_image_gallery_prev gallery = Inr g'"
proof -
  have "image_count data \<noteq> 0"
    using pos by auto
  then obtain r where r: "c_rem (current_index data - 1 + image_count data) (image_count data) = Inr r"
    by (simp add: c_rem_def)
  from gallery_move_to [OF data arr r] show ?thesis
    using data r by (auto simp: lv_image_gallery_prev_def)
qed

text \<open>
  C4, with the range check of the gallery. Called on a \<open>NULL\<close> object or on an object whose user data is \<open>NULL\<close>,
  every public operation of the three widgets returns its failure value (false, \<open>-1\<close>
  or 0) or does nothing, invokes no callback, and hands the object back as it was. On an
  object that carries widget data the only operation that fails is
  \<open>lv_image_gallery_set_index\<close>, which returns false and leaves the gallery as it was
  exactly when the index is outside \<open>[0, image_count)\<close>: the other gallery operations
  return normally with an index other than \<open>-1\<close>, and
  \<open>lv_expandable_card_set_expanded\<close> returns true.
\<close>

theorem widget_null_checks:
  "(null_widget g \<longrightarrow>
      lv_image_gallery_set_index g i = Inr (False, g)
      \<and> lv_image_gallery_get_index g = - 1
      \<and> lv_image_gallery_next g = Inr g
      \<and> lv_image_gallery_prev g = Inr g)
   \<and> (null_widget c \<longrightarrow>
      lv_expandable_card_set_expanded a c b = (False, c)
      \<and> lv_expandable_card_is_expanded c = False
      \<and> lv_expandable_card_toggle a c = c)
   \<and> (null_widget p \<longrightarrow>
      lv_pull_refresh_complete p = (p, [])
      \<and> lv_pull_refresh_is_refreshing p = False
      \<and> lv_pull_refresh_set_refreshing p b = (p, [])
      \<and> lv_pull_refresh_get_pull_distance p = 0
      \<and> lv_pull_refresh_set_enabled p b = (p, []))
   \<and> (gallery_inv g \<longrightarrow>
      (\<exists>g'. lv_image_gallery_next g = Inr g')
      \<and> (\<exists>g'. lv_image_gallery_prev g = Inr g')
      \<and> lv_image_gallery_get_index g \<noteq> - 1
      \<and> (\<exists>r g' data. lv_image_gallery_set_index g i = Inr (r, g')
            \<and> get_gallery_data g = Some data
            \<and> (r \<longleftrightarrow> 0 \<le> sint i \<and> sint i < sint (image_count data))
            \<and> (\<not> r \<longrightarrow> g' = g)))
   \<and> (\<not> null_widget c \<longrightarrow> fst (lv_expandable_card_set_expanded a c b) = True)"
proof (intro conjI impI)
  assume n: "null_widget g"
  from null_widget_gallery [OF n]
  show "lv_image_gallery_set_index g i = Inr (False, g)"
    and "lv_image_gallery_get_index g = - 1"
    and "lv_image_gallery_next g = Inr g"
    and "lv_image_gallery_prev g = Inr g"
    by (simp_all add: lv_image_gallery_set_index_def lv_image_gallery_get_index_def
        lv_image_gallery_next_def lv_image_gallery_prev_def)
next
  assume n: "null_widget c"
  from null_widget_card [OF n]
  show "lv_expandable_card_set_expanded a c b = (False, c)"
    and "lv_expandable_card_is_expanded c = False"
    and "lv_expandable_card_toggle a c = c"
    by (simp_all add: lv_expandable_card_set_expanded_def lv_expandable_card_is_expanded_def
        lv_expandable_card_toggle_def)
next
  assume n: "null_widget p"
  from null_widget_pull [OF n]
  show "lv_pull_refresh_complete p = (p, [])"
    and "lv_pull_refresh_is_refreshing p = False"
    and "lv_pull_refresh_set_refreshing p b = (p, [])"
    and "lv_pull_refresh_get_pull_distance p = 0"
    and "lv_pull_refresh_set_enabled p b = (p, [])"
    by (simp_all add: lv_pull_refresh_complete_def lv_pull_refresh_is_refreshing_def
        lv_pull_refresh_set_refreshing_def lv_pull_refresh_get_pull_distance_def
        lv_pull_refresh_set_enabled_def)
next
  assume inv: "gallery_inv g"
  then obtain data arr where data: "get_gallery_data g = Some data"
    and arr: "images data = Some arr" "sint (image_count data) \<le> int (length arr)"
    and idx: "0 \<le> sint (current_index data)" "sint (current_index data) < sint (image_count data)"
    by (auto simp: gallery_inv_def split: option.splits)
  from gallery_next_step [OF data arr idx]
  show "\<exists>g'. lv_image_gallery_next g = Inr g'"
    by blast
  have pos: "0 < sint (image_count data)"
    using idx by simp
  from gallery_prev_returns [OF data arr pos]
  show "\<exists>g'. lv_image_gallery_prev g = Inr g'" .
  show "lv_image_gallery_get_index g \<noteq> - 1"
  proof
    assume "lv_image_gallery_get_index g = - 1"
    then have "sint (current_index data) = - 1"
      using data by (simp add: lv_image_gallery_get_index_def)
    then show False using idx(1) by simp
  qed
  show "\<exists>r g' data. lv_image_gallery_set_index g i = Inr (r, g')
            \<and> get_gallery_data g = Some data
            \<and> (r \<longleftrightarrow> 0 \<le> sint i \<and> sint i < sint (image_count data))
            \<and> (\<not> r \<longrightarrow> g' = g)"
  proof (cases "0 \<le> sint i \<and> sint i < sint (image_count data)")
    case False
    then show ?thesis
      using data by (auto simp: lv_image_gallery_set_index_def)
  next
    case True
    from update_gallery_display_ok [of "data\<lparr>current_index := i\<rparr>" arr] arr
    obtain data' where "update_gallery_display (data\<lparr>current_index := i\<rparr>) = Inr data'"
      by auto
    then show ?thesis
      using True data by (auto simp: lv_image_gallery_set_index_def)
  qed
next
  assume "\<not> null_widget c"
  from not_null_widget_card [OF this]
  show "fst (lv_expandable_card_set_expanded a c b) = True"
    by (auto simp: lv_expandable_card_set_expanded_def)
qed

theorem widget_null_checks_witness:
  "null_widget (None :: gallery_obj option)
   \<and> null_widget (Some \<lparr> user_data = None \<rparr> :: card_obj option)
   \<and> null_widget (Some \<lparr> user_data = None \<rparr> :: pull_obj option)
   \<and> lv_image_gallery_set_index None 1 = Inr (False, None)
   \<and> lv_image_gallery_get_index None = - 1
   \<and> lv_expandable_card_set_expanded True (Some \<lparr> user_data = None \<rparr>) True
        = (False, Some \<lparr> user_data = None \<rparr>)
   \<and> lv_pull_refresh_set_enabled (Some \<lparr> user_data = None \<rparr>) False
        = (Some \<lparr> user_data = None \<rparr>, [])
   \<and> lv_pull_refresh_get_pull_distance (Some \<lparr> user_data = None \<rparr>) = 0
   \<and> gallery_inv (Some (demo_gallery 0))
   \<and> (\<exists>g'. lv_image_gallery_set_index (Some (demo_gallery 0)) 1 = Inr (True, g'))
   \<and> null_widget (Some (demo_card False)) = False
   \<and> fst (lv_expandable_card_set_expanded True (Some (demo_card False)) True) = True"
proof -
  have n1: "null_widget (None :: gallery_obj option)"
    and n2: "null_widget (Some \<lparr> user_data = None \<rparr> :: card_obj option)"
    and n3: "null_widget (Some \<lparr> user_data = None \<rparr> :: pull_obj option)"
    by (simp_all add: null_widget_def)
  have inv: "gallery_inv (Some (demo_gallery 0))"
    by (simp add: gallery_inv_def get_gallery_data_def demo_gallery_def demo_data_def demo_images_def)
  have c3: "get_gallery_data (Some (demo_gallery 0)) = Some (demo_data 0)" "image_count (demo_data 0) = 3"
    by (simp_all add: get_gallery_data_def demo_gallery_def demo_data_def)
  have nn: "null_widget (Some (demo_card False)) = False"
    by (simp add: null_widget_def demo_card_def)
  note w1 = widget_null_checks [of None 1 "Some \<lparr> user_data = None \<rparr>" True True
      "Some \<lparr> user_data = None \<rparr>"]
  note w2 = widget_null_checks [of "Some (demo_gallery 0)" 1 "Some (demo_card False)" True True None]
  from w1 n1 n2 n3 have a:
    "lv_image_gallery_set_index None 1 = Inr (False, None)
     \<and> lv_image_gallery_get_index None = - 1
     \<and> lv_expandable_card_set_expanded True (Some \<lparr> user_data = None \<rparr>) True
          = (False, Some \<lparr> user_data = None \<rparr>)
     \<and> lv_pull_refresh_get_pull_distance (Some \<lparr> user_data = None \<rparr>) = 0"
    by blast
  from widget_null_checks [of None 1 "Some \<lparr> user_data = None \<rparr>" True False
      "Some \<lparr> user_data = None \<rparr>"] n3
  have a': "lv_pull_refresh_set_enabled (Some \<lparr> user_data = None \<rparr>) False
        = (Some \<lparr> user_data = None \<rparr>, [])"
    by blast
  from w2 inv c3 nn have b:
    "(\<exists>g'. lv_image_gallery_set_index (Some (demo_gallery 0)) 1 = Inr (True, g'))
     \<and> fst (lv_expandable_card_set_expanded True (Some (demo_card False)) True) = True"
    by auto
  show ?thesis
    using n1 n2 n3 inv nn a a' b by blast
qed

text \<open>
  \<open>lv_image_gallery_set_index\<close> also fails on a gallery that has its data: index 3 or
  \<open>-1\<close> on the three-image gallery returns false.
\<close>

theorem set_index_range_failure_counterexample:
  "null_widget (Some (demo_gallery 0)) = False
   \<and> gallery_inv (Some (demo_gallery 0))
   \<and> lv_image_gallery_set_index (Some (demo_gallery 0)) 3 = Inr (False, Some (demo_gallery 0))
   \<and> lv_image_gallery_set_index (Some (demo_gallery 0)) (- 1) = Inr (False, Some (demo_gallery 0))"
  by (simp add: null_widget_def gallery_inv_def get_gallery_data_def lv_image_gallery_set_index_def
      demo_gallery_def demo_data_def demo_images_def)

end
